theory Spec2Isabelle
  imports Complex_Main "HOL-Library.Word" "HOL-Library.AList"
begin

section \<open>Listener-id allocation (src/logger/utils.py)\<close>

text \<open>
  \<^verbatim>\<open>unique_integer_key\<close> walks the sorted keys of a dictionary with a running
  \<^verbatim>\<open>prev\<close> and returns \<^verbatim>\<open>uid - 1\<close> at the first key that is not \<^verbatim>\<open>prev + 1\<close>;
  when the loop ends it returns \<^verbatim>\<open>prev + 1\<close>. A dictionary is an association list
  in insertion order; Python integers are unbounded, so keys are \<^typ>\<open>int\<close>.
\<close>

fun scan_keys :: "int \<Rightarrow> int list \<Rightarrow> int" where
  "scan_keys prev [] = prev + 1"
| "scan_keys prev (uid # uids) = (if uid - prev \<noteq> 1 then uid - 1 else scan_keys uid uids)"

definition unique_integer_key :: "(int \<times> 'v) list \<Rightarrow> int" where
  "unique_integer_key dictionary = scan_keys 0 (sort (map fst dictionary))"

section \<open>Tasks (src/tasks.py)\<close>

subsection \<open>Objects and the store\<close>

text \<open>
  Tasks are mutable objects that refer to one another: a composite holds its children,
  and each child holds the composite's bound \<^verbatim>\<open>update\<close> method among its listeners.
  The model is a store from addresses to task objects. A listener is either the bound
  \<^verbatim>\<open>update\<close> method of a task (what \<^verbatim>\<open>MultiTask.__init__\<close> registers) or an
  external callback, which is opaque: it is identified by a label and does not touch
  the store.

  The three subclasses differ in their private fields only:
  \<^item> \<^verbatim>\<open>SimpleTask\<close>: the flag \<^verbatim>\<open>_is_done\<close>, which only ever holds
    \<^verbatim>\<open>False\<close> or \<^verbatim>\<open>True\<close>;
  \<^item> \<^verbatim>\<open>CounterTask\<close>: the counter \<^verbatim>\<open>_progress\<close>, a shared C \<^verbatim>\<open>int\<close>
    (\<^verbatim>\<open>Value("i", 0)\<close>, 32 bits, two's complement, assignments wrap around), and
    \<^verbatim>\<open>_length\<close>, the number the constructor was given (an integer by its annotation, a
    float such as \<^verbatim>\<open>len(data) / 2\<close> in the driver script), modelled by a rational;
  \<^item> \<^verbatim>\<open>MultiTask\<close>: the list \<^verbatim>\<open>_sub_tasks\<close>.
  Python floats are modelled by exact rationals.
\<close>

type_synonym addr = nat

datatype listener = Callback nat | Update addr

datatype body =
    SimpleTask bool
  | CounterTask "32 word" rat
  | MultiTask "addr list"

record task =
  name :: string
  update_listeners :: "(int \<times> listener) list"
  body :: body

datatype error = KeyError | ZeroDivisionError | RecursionError

text \<open>
  The state is the store, the number of objects allocated so far, and a trace of the
  listener invocations: every execution of \<^verbatim>\<open>listener()\<close> in \<^verbatim>\<open>Task.update\<close> or
  \<^verbatim>\<open>Task.reset\<close> appends the address of the task whose registry is being iterated
  and the key of the listener.
\<close>

record state =
  heap :: "addr \<Rightarrow> task"
  next_addr :: addr
  calls :: "(addr \<times> int) list"

subsection \<open>Queries\<close>

text \<open>
  \<^verbatim>\<open>is_done\<close> and \<^verbatim>\<open>completeness\<close> of a composite call the same method of each
  child, so they recurse through the store. The first argument bounds the depth of
  nested calls; exceeding it is Python's \<^verbatim>\<open>RecursionError\<close>.
  \<^verbatim>\<open>all(...)\<close> over a generator stops at the first false element.
\<close>

fun all_loop :: "(error + bool) list \<Rightarrow> error + bool" where
  "all_loop [] = Inr True"
| "all_loop (Inl e # rs) = Inl e"
| "all_loop (Inr d # rs) = (if d then all_loop rs else Inr False)"

fun is_done :: "nat \<Rightarrow> (addr \<Rightarrow> task) \<Rightarrow> addr \<Rightarrow> error + bool" where
  "is_done 0 h a = Inl RecursionError"
| "is_done (Suc n) h a =
     (case body (h a) of
        SimpleTask d \<Rightarrow> Inr d
      | CounterTask p l \<Rightarrow> Inr (l \<le> of_int (sint p))
      | MultiTask ts \<Rightarrow> all_loop (map (is_done n h) ts))"

fun acc_loop :: "rat \<Rightarrow> (error + rat) list \<Rightarrow> error + rat" where
  "acc_loop acc [] = Inr acc"
| "acc_loop acc (Inl e # rs) = Inl e"
| "acc_loop acc (Inr c # rs) = acc_loop (acc + c) rs"

fun completeness :: "nat \<Rightarrow> (addr \<Rightarrow> task) \<Rightarrow> addr \<Rightarrow> error + rat" where
  "completeness 0 h a = Inl RecursionError"
| "completeness (Suc n) h a =
     (case body (h a) of
        SimpleTask d \<Rightarrow> Inr (if d then 1 else 0)
      | CounterTask p l \<Rightarrow>
          (if l = 0 then Inl ZeroDivisionError else Inr (of_int (sint p) / l))
      | MultiTask ts \<Rightarrow>
          (if length ts = 0 then Inr 1
           else (case acc_loop 0 (map (completeness n h) ts) of
                   Inl e \<Rightarrow> Inl e
                 | Inr acc \<Rightarrow> Inr (acc / of_nat (length ts)))))"

subsection \<open>update and reset\<close>

text \<open>
  \<^verbatim>\<open>_update\<close> of the three subclasses: set the flag, increment the counter (the C
  \<^verbatim>\<open>int\<close> wraps), do nothing.
\<close>

definition update_impl :: "task \<Rightarrow> task" where
  "update_impl t =
     (case body t of
        SimpleTask d \<Rightarrow> t\<lparr>body := SimpleTask True\<rparr>
      | CounterTask p l \<Rightarrow> t\<lparr>body := CounterTask (p + 1) l\<rparr>
      | MultiTask ts \<Rightarrow> t)"

text \<open>Calling a listener: a bound \<^verbatim>\<open>update\<close> runs it, a callback returns.\<close>

fun call :: "(addr \<Rightarrow> state \<Rightarrow> error + state) \<Rightarrow> listener \<Rightarrow> state \<Rightarrow> error + state" where
  "call upd (Callback c) s = Inr s"
| "call upd (Update p) s = upd p s"

text \<open>
  The loop \<^verbatim>\<open>for key, listener in self._update_listeners.items(): listener()\<close>
  of the task at address \<open>a\<close>.
\<close>

fun notify ::
  "(addr \<Rightarrow> state \<Rightarrow> error + state) \<Rightarrow> addr \<Rightarrow> (int \<times> listener) list \<Rightarrow> state \<Rightarrow> error + state"
where
  "notify upd a [] s = Inr s"
| "notify upd a ((key, listener) # rest) s =
     (case call upd listener (s\<lparr>calls := calls s @ [(a, key)]\<rparr>) of
        Inl e \<Rightarrow> Inl e
      | Inr s' \<Rightarrow> notify upd a rest s')"

fun update :: "nat \<Rightarrow> addr \<Rightarrow> state \<Rightarrow> error + state" where
  "update 0 a s = Inl RecursionError"
| "update (Suc n) a s =
     (case is_done n (heap s) a of
        Inl e \<Rightarrow> Inl e
      | Inr d \<Rightarrow>
          if \<not> d then
            (let s1 = s\<lparr>heap := (heap s)(a := update_impl (heap s a))\<rparr>
             in notify (update n) a (update_listeners (heap s1 a)) s1)
          else Inr s)"

text \<open>The loop \<^verbatim>\<open>for task in self._sub_tasks: task.reset()\<close>.\<close>

fun reset_loop :: "(addr \<Rightarrow> state \<Rightarrow> error + state) \<Rightarrow> addr list \<Rightarrow> state \<Rightarrow> error + state" where
  "reset_loop rst [] s = Inr s"
| "reset_loop rst (t # ts) s =
     (case rst t s of Inl e \<Rightarrow> Inl e | Inr s' \<Rightarrow> reset_loop rst ts s')"

text \<open>\<^verbatim>\<open>_reset\<close> of the leaves: clear the flag, set the counter to 0.\<close>

definition reset_leaf :: "task \<Rightarrow> task" where
  "reset_leaf t =
     (case body t of
        SimpleTask d \<Rightarrow> t\<lparr>body := SimpleTask False\<rparr>
      | CounterTask p l \<Rightarrow> t\<lparr>body := CounterTask 0 l\<rparr>
      | MultiTask ts \<Rightarrow> t)"

fun reset :: "nat \<Rightarrow> addr \<Rightarrow> state \<Rightarrow> error + state" where
  "reset 0 a s = Inl RecursionError"
| "reset (Suc n) a s =
     (case (case body (heap s a) of
              MultiTask ts \<Rightarrow> reset_loop (reset n) ts s
            | _ \<Rightarrow> Inr (s\<lparr>heap := (heap s)(a := reset_leaf (heap s a))\<rparr>)) of
        Inl e \<Rightarrow> Inl e
      | Inr s1 \<Rightarrow> notify (update n) a (update_listeners (heap s1 a)) s1)"

subsection \<open>The listener registry\<close>

text \<open>
  \<^verbatim>\<open>self._update_listeners[uid] = listener\<close> replaces the value of a key that is
  present in place and appends a new key; \<^verbatim>\<open>del self._update_listeners[uid]\<close> raises
  \<^verbatim>\<open>KeyError\<close> when the key is absent and changes nothing then.
\<close>

definition add :: "addr \<Rightarrow> listener \<Rightarrow> state \<Rightarrow> int \<times> state" where
  "add a listener s =
     (let uid = unique_integer_key (update_listeners (heap s a))
      in (uid, s\<lparr>heap := (heap s)(a := (heap s a)
             \<lparr>update_listeners := AList.update uid listener (update_listeners (heap s a))\<rparr>)\<rparr>))"

definition remove :: "addr \<Rightarrow> int \<Rightarrow> state \<Rightarrow> (error + unit) \<times> state" where
  "remove a uid s =
     (if uid \<in> fst ` set (update_listeners (heap s a))
      then (Inr (), s\<lparr>heap := (heap s)(a := (heap s a)
             \<lparr>update_listeners := AList.delete uid (update_listeners (heap s a))\<rparr>)\<rparr>)
      else (Inl KeyError, s))"

subsection \<open>Constructors\<close>

text \<open>
  \<^verbatim>\<open>Task.__init__\<close> stores \<^verbatim>\<open>name or "task"\<close> and an empty registry. No constructor
  validates its arguments or raises; the result type still has the error branch, so
  that a rejected construction could be told from an accepted one.
\<close>

definition Task_init :: "string \<Rightarrow> body \<Rightarrow> task" where
  "Task_init nm b = \<lparr>name = (if nm = [] then ''task'' else nm), update_listeners = [], body = b\<rparr>"

definition allocate :: "task \<Rightarrow> state \<Rightarrow> addr \<times> state" where
  "allocate t s = (next_addr s, s\<lparr>heap := (heap s)(next_addr s := t), next_addr := Suc (next_addr s)\<rparr>)"

definition SimpleTask_init :: "string \<Rightarrow> state \<Rightarrow> error + addr \<times> state" where
  "SimpleTask_init nm s = Inr (allocate (Task_init nm (SimpleTask False)) s)"

definition CounterTask_init :: "rat \<Rightarrow> string \<Rightarrow> state \<Rightarrow> error + addr \<times> state" where
  "CounterTask_init progress_length nm s =
     Inr (allocate (Task_init nm (CounterTask 0 progress_length)) s)"

text \<open>
  \<^verbatim>\<open>MultiTask.__init__\<close>: for each given task, register the new object's
  \<^verbatim>\<open>update\<close> on it and append it to \<^verbatim>\<open>_sub_tasks\<close>.
\<close>

definition append_sub_task :: "addr \<Rightarrow> addr \<Rightarrow> state \<Rightarrow> state" where
  "append_sub_task self t s =
     s\<lparr>heap := (heap s)(self := (heap s self)
          \<lparr>body := (case body (heap s self) of
                      MultiTask ts \<Rightarrow> MultiTask (ts @ [t])
                    | b \<Rightarrow> b)\<rparr>)\<rparr>"

fun subscribe :: "addr \<Rightarrow> addr list \<Rightarrow> state \<Rightarrow> state" where
  "subscribe self [] s = s"
| "subscribe self (t # ts) s =
     subscribe self ts (append_sub_task self t (snd (add t (Update self) s)))"

definition MultiTask_init :: "string \<Rightarrow> addr list \<Rightarrow> state \<Rightarrow> error + addr \<times> state" where
  "MultiTask_init nm tasks s =
     (let (self, s1) = allocate (Task_init nm (MultiTask [])) s
      in Inr (self, subscribe self tasks s1))"

text \<open>The store before any task is created.\<close>

definition empty_state :: state where
  "empty_state = \<lparr>heap = (\<lambda>a. Task_init [] (SimpleTask False)), next_addr = 0, calls = []\<rparr>"

section \<open>Example stores\<close>

text \<open>
  A boolean leaf with three callbacks registered (ids 1, 2, 3), the second of which is
  removed again.
\<close>

definition registry_example :: state where
  "registry_example =
     (case SimpleTask_init ''t'' empty_state of
        Inr (t, s0) \<Rightarrow>
          (let (i1, s1) = add t (Callback 0) s0;
               (i2, s2) = add t (Callback 1) s1;
               (i3, s3) = add t (Callback 2) s2
           in snd (remove t i2 s3)))"

section \<open>Sequences of calls and well-formed stores\<close>

text \<open>
  A caller drives the tasks by a sequence of \<^verbatim>\<open>update()\<close> and \<^verbatim>\<open>reset()\<close> calls,
  one after the other; the first error ends the run, as an uncaught exception would.
\<close>

datatype op = DoUpdate addr | DoReset addr

fun step :: "nat \<Rightarrow> op \<Rightarrow> state \<Rightarrow> error + state" where
  "step n (DoUpdate a) s = update n a s"
| "step n (DoReset a) s = reset n a s"

fun run :: "nat \<Rightarrow> op list \<Rightarrow> state \<Rightarrow> error + state" where
  "run n [] s = Inr s"
| "run n (c # cs) s = (case step n c s of Inl e \<Rightarrow> Inl e | Inr s' \<Rightarrow> run n cs s')"

definition sub_tasks :: "task \<Rightarrow> addr list" where
  "sub_tasks t = (case body t of MultiTask ts \<Rightarrow> ts | _ \<Rightarrow> [])"

definition is_multi :: "task \<Rightarrow> bool" where
  "is_multi t = (case body t of MultiTask ts \<Rightarrow> True | _ \<Rightarrow> False)"

text \<open>
  The stores the constructors build: a composite is created after its children, so its
  address is above theirs, and the only bound \<^verbatim>\<open>update\<close> methods among the listeners
  of a task are those of composites created later (\<^verbatim>\<open>MultiTask.__init__\<close> registers
  them); every other listener is an external callback.
\<close>

definition listener_ok :: "state \<Rightarrow> addr \<Rightarrow> listener \<Rightarrow> bool" where
  "listener_ok s a l =
     (case l of
        Callback c \<Rightarrow> True
      | Update p \<Rightarrow> a < p \<and> p < next_addr s \<and> is_multi (heap s p))"

definition wf_state :: "state \<Rightarrow> bool" where
  "wf_state s =
     (\<forall>a\<in>{..<next_addr s}.
        (\<forall>t\<in>set (sub_tasks (heap s a)). t < a) \<and>
        (\<forall>kl\<in>set (update_listeners (heap s a)). listener_ok s a (snd kl)))"

text \<open>The tasks below a task: itself, its children, their children, and so on.\<close>

inductive descendant :: "(addr \<Rightarrow> task) \<Rightarrow> addr \<Rightarrow> addr \<Rightarrow> bool" for h :: "addr \<Rightarrow> task" where
  self: "descendant h a a"
| child: "t \<in> set (sub_tasks (h a)) \<Longrightarrow> descendant h t b \<Longrightarrow> descendant h a b"

text \<open>The zero state of a leaf: flag false, counter 0.\<close>

definition is_zero :: "task \<Rightarrow> bool" where
  "is_zero t =
     (case body t of
        SimpleTask d \<Rightarrow> \<not> d
      | CounterTask p l \<Rightarrow> p = 0
      | MultiTask ts \<Rightarrow> True)"

text \<open>Two states with the same tasks, children and listeners; only leaf values differ.\<close>

definition same_shape :: "state \<Rightarrow> state \<Rightarrow> bool" where
  "same_shape s s' =
     (next_addr s' = next_addr s \<and>
      (\<forall>b. sub_tasks (heap s' b) = sub_tasks (heap s b) \<and>
           update_listeners (heap s' b) = update_listeners (heap s b) \<and>
           is_multi (heap s' b) = is_multi (heap s b)))"

text \<open>The store after every leaf below a task has been put back to its zero state.\<close>

definition zeroed :: "(addr \<Rightarrow> task) \<Rightarrow> addr \<Rightarrow> addr \<Rightarrow> task" where
  "zeroed h a = (\<lambda>b. if descendant h a b then reset_leaf (h b) else h b)"

text \<open>Zeroing below one task after another zeroes below all of them.\<close>

definition zeroed_all :: "(addr \<Rightarrow> task) \<Rightarrow> addr list \<Rightarrow> addr \<Rightarrow> task" where
  "zeroed_all h ts = (\<lambda>b. if \<exists>t\<in>set ts. descendant h t b then reset_leaf (h b) else h b)"

text \<open>
  Two boolean leaves, a composite over them, and one callback registered on the composite.
\<close>

definition two_leaves_example :: state where
  "two_leaves_example =
     (case SimpleTask_init ''a'' empty_state of
        Inr (a, s1) \<Rightarrow>
          (case SimpleTask_init ''b'' s1 of
             Inr (b, s2) \<Rightarrow>
               (case MultiTask_init ''m'' [a, b] s2 of
                  Inr (m, s3) \<Rightarrow> snd (add m (Callback 0) s3))))"

text \<open>A boolean leaf with one callback registered.\<close>

definition leaf_example :: state where
  "leaf_example =
     (case SimpleTask_init ''leaf'' empty_state of
        Inr (t, s0) \<Rightarrow> snd (add t (Callback 0) s0))"

text \<open>The task a call is made on.\<close>

fun target :: "op \<Rightarrow> addr" where
  "target (DoUpdate a) = a"
| "target (DoReset a) = a"

text \<open>
  A counted leaf with the integer target \<open>T\<close> whose counter, read as the signed C
  \<^verbatim>\<open>int\<close> it is, does not exceed \<open>T\<close>.
\<close>

definition counter_within :: "int \<Rightarrow> task \<Rightarrow> bool" where
  "counter_within T t =
     (case body t of
        CounterTask p l \<Rightarrow> l = of_int T \<and> sint p \<le> T
      | _ \<Rightarrow> False)"

text \<open>
  The driver script's tree in small: counted leaves with targets 2 and 4 and a composite
  over them.
\<close>

definition two_counters_example :: state where
  "two_counters_example =
     (case CounterTask_init 2 ''mul'' empty_state of
        Inr (a, s1) \<Rightarrow>
          (case CounterTask_init 4 ''sum'' s1 of
             Inr (b, s2) \<Rightarrow>
               (case MultiTask_init ''tasks'' [a, b] s2 of
                  Inr (m, s3) \<Rightarrow> s3)))"

text \<open>A counted leaf whose target is one more than the largest C \<^verbatim>\<open>int\<close>.\<close>

definition big_counter_example :: state where
  "big_counter_example =
     (case CounterTask_init (2 ^ 31) ''big'' empty_state of Inr (a, s) \<Rightarrow> s)"


text \<open>The bound \<^verbatim>\<open>update\<close> methods among the listeners of a task, in registry order.\<close>

fun bound_updates :: "(int \<times> listener) list \<Rightarrow> addr list" where
  "bound_updates [] = []"
| "bound_updates ((key, Callback c) # rest) = bound_updates rest"
| "bound_updates ((key, Update p) # rest) = p # bound_updates rest"

text \<open>
  A well-formed store is a tree when every child of a composite carries the
  \<^verbatim>\<open>update\<close> of that composite, once, and no other bound \<^verbatim>\<open>update\<close>: what
  \<^verbatim>\<open>MultiTask.__init__\<close> builds as long as no task is given to two composites or twice
  to one.
\<close>

definition tree_state :: "state \<Rightarrow> bool" where
  "tree_state s =
     (wf_state s \<and>
      (\<forall>a\<in>{..<next_addr s}. \<forall>t\<in>set (sub_tasks (heap s a)).
         bound_updates (update_listeners (heap s t)) = [a]))"

text \<open>
  A task that is not done once everything below it is reset: a boolean leaf, a counted
  leaf with a positive target, a composite with children.
\<close>

definition has_work :: "task \<Rightarrow> bool" where
  "has_work t =
     (case body t of
        SimpleTask d \<Rightarrow> True
      | CounterTask p l \<Rightarrow> 0 < l
      | MultiTask ts \<Rightarrow> ts \<noteq> [])"

text \<open>
  The number of tasks in the subtree of a task, the task included; the first argument
  bounds the depth.
\<close>

fun subtree_size :: "nat \<Rightarrow> (addr \<Rightarrow> task) \<Rightarrow> addr \<Rightarrow> nat" where
  "subtree_size 0 h a = 0"
| "subtree_size (Suc n) h a = Suc (sum_list (map (subtree_size n h) (sub_tasks (h a))))"

text \<open>
  A composite over a composite and a boolean leaf, the inner composite over a boolean leaf
  and a counted leaf with target 2; one callback is registered on the outer composite.
\<close>

definition nested_example :: state where
  "nested_example =
     (case SimpleTask_init ''a'' empty_state of
        Inr (a, s1) \<Rightarrow>
          (case CounterTask_init 2 ''b'' s1 of
             Inr (b, s2) \<Rightarrow>
               (case MultiTask_init ''inner'' [a, b] s2 of
                  Inr (i, s3) \<Rightarrow>
                    (case SimpleTask_init ''c'' s3 of
                       Inr (c, s4) \<Rightarrow>
                         (case MultiTask_init ''outer'' [i, c] s4 of
                            Inr (m, s5) \<Rightarrow> snd (add m (Callback 0) s5))))))"

text \<open>The same tasks after one \<^verbatim>\<open>update()\<close> of each leaf.\<close>

definition driven_example :: state where
  "driven_example =
     (case run 16 [DoUpdate 0, DoUpdate 1, DoUpdate 3] nested_example of
        Inr s \<Rightarrow> s
      | Inl e \<Rightarrow> nested_example)"

section \<open>Properties of the id allocation\<close>

lemma scan_keys_above:
  "sorted ks \<Longrightarrow> distinct ks \<Longrightarrow> \<forall>k\<in>set ks. prev < k \<Longrightarrow>
     prev < scan_keys prev ks \<and> scan_keys prev ks \<notin> set ks"
proof (induction ks arbitrary: prev)
  case Nil
  then show ?case by simp
next
  case (Cons uid uids)
  have above: "\<forall>k\<in>set uids. uid < k"
    using Cons.prems by (auto simp: less_le)
  show ?case
  proof (cases "uid - prev \<noteq> 1")
    case True
    then show ?thesis using Cons.prems above by fastforce
  next
    case False
    have "uid < scan_keys uid uids \<and> scan_keys uid uids \<notin> set uids"
      using Cons.IH [of uid] Cons.prems above by simp
    then show ?thesis using False Cons.prems by auto
  qed
qed

lemma scan_keys_fresh:
  "sorted ks \<Longrightarrow> distinct ks \<Longrightarrow> scan_keys prev ks \<notin> set ks"
proof (cases ks)
  case Nil
  then show ?thesis by simp
next
  case (Cons uid uids)
  assume s: "sorted ks" and d: "distinct ks"
  have above: "\<forall>k\<in>set uids. uid < k"
    using s d Cons by (auto simp: less_le)
  show ?thesis
  proof (cases "uid - prev \<noteq> 1")
    case True
    then show ?thesis using Cons above by fastforce
  next
    case False
    have "uid < scan_keys uid uids \<and> scan_keys uid uids \<notin> set uids"
      using scan_keys_above [of uids uid] s d Cons above by simp
    then show ?thesis using False Cons by auto
  qed
qed

lemma scan_keys_first_gap:
  "sorted ks \<Longrightarrow> distinct ks \<Longrightarrow> \<forall>k\<in>set ks. prev < k \<Longrightarrow>
   prev < g \<Longrightarrow> g \<notin> set ks \<Longrightarrow> \<forall>i. prev < i \<and> i < g \<longrightarrow> i \<in> set ks \<Longrightarrow>
     (if \<exists>k\<in>set ks. g < k
      then g \<le> scan_keys prev ks \<and> scan_keys prev ks + 1 \<in> set ks \<and>
           (\<forall>i. g \<le> i \<and> i \<le> scan_keys prev ks \<longrightarrow> i \<notin> set ks)
      else scan_keys prev ks = g)"
proof (induction ks arbitrary: prev)
  case Nil
  have "\<not> prev + 1 < g" using Nil.prems(6) [rule_format, of "prev + 1"] by auto
  then show ?case using Nil.prems(4) by simp
next
  case (Cons uid uids)
  have above: "\<forall>k\<in>set uids. uid < k"
    using Cons.prems(1,2) by (auto simp: less_le)
  have low: "prev < uid" using Cons.prems(3) by simp
  show ?case
  proof (cases "uid - prev \<noteq> 1")
    case True
    have r: "scan_keys prev (uid # uids) = uid - 1" using True by simp
    have "prev + 1 \<notin> set (uid # uids)" using True above low by fastforce
    then have "\<not> prev + 1 < g" using Cons.prems(6) [rule_format, of "prev + 1"] by auto
    then have g: "g = prev + 1" using Cons.prems(4) by simp
    have ex: "\<exists>k\<in>set (uid # uids). g < k" using g True low by auto
    have 1: "g \<le> uid - 1" using g True low by simp
    have 2: "uid - 1 + 1 \<in> set (uid # uids)" by simp
    have 3: "\<forall>i. g \<le> i \<and> i \<le> uid - 1 \<longrightarrow> i \<notin> set (uid # uids)"
      using above by fastforce
    show ?thesis unfolding r if_P [OF ex] using 1 2 3 by blast
  next
    case False
    then have uid: "uid = prev + 1" by simp
    have r: "scan_keys prev (uid # uids) = scan_keys uid uids" using False by simp
    have g: "uid < g" using Cons.prems(4,5) uid by (cases "g = uid") auto
    have chain: "\<forall>i. uid < i \<and> i < g \<longrightarrow> i \<in> set uids"
    proof (intro allI impI)
      fix i assume i: "uid < i \<and> i < g"
      then show "i \<in> set uids" using Cons.prems(6) [rule_format, of i] uid by auto
    qed
    have s: "sorted uids" and d: "distinct uids" and n: "g \<notin> set uids"
      using Cons.prems(1,2,5) by simp_all
    note IH = Cons.IH [OF s d above g n chain]
    show ?thesis
    proof (cases "\<exists>k\<in>set uids. g < k")
      case True
      then have ex: "\<exists>k\<in>set (uid # uids). g < k" by auto
      have c: "g \<le> scan_keys uid uids \<and> scan_keys uid uids + 1 \<in> set uids \<and>
           (\<forall>i. g \<le> i \<and> i \<le> scan_keys uid uids \<longrightarrow> i \<notin> set uids)"
        using IH True by simp
      have 3: "\<forall>i. g \<le> i \<and> i \<le> scan_keys uid uids \<longrightarrow> i \<notin> set (uid # uids)"
        using c g by auto
      show ?thesis unfolding r if_P [OF ex] using c 3 by simp
    next
      case False
      then have nex: "\<not> (\<exists>k\<in>set (uid # uids). g < k)" using g by auto
      have "scan_keys uid uids = g" using IH False by simp
      then show ?thesis unfolding r if_not_P [OF nex] .
    qed
  qed
qed


lemma update_fresh_appends:
  "k \<notin> fst ` set al \<Longrightarrow> AList.update k v al = al @ [(k, v)]"
  by (induction al) auto

lemma unique_integer_key_props:
  fixes d :: "(int \<times> 'v) list"
  assumes dist: "distinct (map fst d)" and pos: "\<forall>k\<in>fst ` set d. 1 \<le> k"
  defines "K \<equiv> fst ` set d" and "uid \<equiv> unique_integer_key d"
  shows "uid \<notin> K" and "1 \<le> uid"
    and "\<And>g. 1 \<le> g \<Longrightarrow> g \<notin> K \<Longrightarrow> \<forall>i. 0 < i \<and> i < g \<longrightarrow> i \<in> K \<Longrightarrow>
          (if \<exists>k\<in>K. g < k
           then g \<le> uid \<and> uid + 1 \<in> K \<and> (\<forall>i. g \<le> i \<and> i \<le> uid \<longrightarrow> i \<notin> K)
           else uid = g)"
proof -
  let ?ks = "sort (map fst d)"
  have s: "sorted ?ks" by simp
  have di: "distinct ?ks" using dist by simp
  have st: "set ?ks = K" by (simp add: K_def)
  have ab: "\<forall>k\<in>set ?ks. 0 < k" using pos unfolding st K_def by fastforce
  have u: "uid = scan_keys 0 ?ks" by (simp add: uid_def unique_integer_key_def)
  show "uid \<notin> K" using scan_keys_fresh [OF s di, of 0] unfolding u st .
  show "1 \<le> uid" using scan_keys_above [OF s di ab] unfolding u by simp
  fix g :: int
  assume g: "1 \<le> g" "g \<notin> K" "\<forall>i. 0 < i \<and> i < g \<longrightarrow> i \<in> K"
  have g0: "0 < g" using g(1) by simp
  show "if \<exists>k\<in>K. g < k
           then g \<le> uid \<and> uid + 1 \<in> K \<and> (\<forall>i. g \<le> i \<and> i \<le> uid \<longrightarrow> i \<notin> K)
           else uid = g"
    using scan_keys_first_gap [OF s di ab g0, unfolded st, OF g(2) g(3)] unfolding u st .
qed


lemma add_fst: "fst (add a l s) = unique_integer_key (update_listeners (heap s a))"
  by (simp add: add_def Let_def)

lemma add_listeners:
  "update_listeners (heap (snd (add a l s)) a) =
     AList.update (unique_integer_key (update_listeners (heap s a))) l (update_listeners (heap s a))"
  by (simp add: add_def Let_def)

lemma key_empty:
  fixes d :: "(int \<times> 'v) list"
  assumes "distinct (map fst d)" "\<forall>k\<in>fst ` set d. 1 \<le> k" "fst ` set d = {}"
  shows "unique_integer_key d = 1"
proof -
  have a: "(1::int) \<le> 1" by simp
  have b: "1 \<notin> fst ` set d" unfolding assms(3) by simp
  have c: "\<forall>i::int. 0 < i \<and> i < 1 \<longrightarrow> i \<in> fst ` set d" by auto
  have e: "\<not> (\<exists>k\<in>fst ` set d. 1 < k)" unfolding assms(3) by simp
  show ?thesis
    using unique_integer_key_props(3) [OF assms(1,2) a b c] unfolding if_not_P [OF e] .
qed

lemma key_full:
  fixes d :: "(int \<times> 'v) list"
  assumes "distinct (map fst d)" "\<forall>k\<in>fst ` set d. 1 \<le> k" "1 \<le> n" "fst ` set d = {1..n}"
  shows "unique_integer_key d = n + 1 \<and> Max (fst ` set d) = n"
proof -
  have a: "1 \<le> n + 1" using assms(3) by simp
  have b: "n + 1 \<notin> fst ` set d" unfolding assms(4) by simp
  have c: "\<forall>i. 0 < i \<and> i < n + 1 \<longrightarrow> i \<in> fst ` set d" unfolding assms(4) by auto
  have e: "\<not> (\<exists>k\<in>fst ` set d. n + 1 < k)" unfolding assms(4) by auto
  have "unique_integer_key d = n + 1"
    using unique_integer_key_props(3) [OF assms(1,2) a b c] unfolding if_not_P [OF e] .
  moreover have "Max {1..n} = n" using assms(3) by (intro Max_eqI) auto
  ultimately show ?thesis unfolding assms(4) by simp
qed

lemma key_hole:
  fixes d :: "(int \<times> 'v) list"
  assumes "distinct (map fst d)" "\<forall>k\<in>fst ` set d. 1 \<le> k"
    and "1 \<le> g" "g \<notin> fst ` set d" "{1..<g} \<subseteq> fst ` set d" "\<exists>k\<in>fst ` set d. g < k"
  shows "g \<le> unique_integer_key d \<and> unique_integer_key d + 1 \<in> fst ` set d \<and>
         (\<forall>i. g \<le> i \<and> i \<le> unique_integer_key d \<longrightarrow> i \<notin> fst ` set d)"
proof -
  have c: "\<forall>i. 0 < i \<and> i < g \<longrightarrow> i \<in> fst ` set d"
  proof (intro allI impI)
    fix i :: int assume "0 < i \<and> i < g"
    then have "i \<in> {1..<g}" by simp
    then show "i \<in> fst ` set d" using assms(5) by (rule subsetD [rotated])
  qed
  show ?thesis
    using unique_integer_key_props(3) [OF assms(1,2,3,4) c] unfolding if_P [OF assms(6)] .
qed

lemma key_one_three:
  fixes d :: "(int \<times> 'v) list"
  assumes "distinct (map fst d)" "\<forall>k\<in>fst ` set d. 1 \<le> k" "fst ` set d = {1, 3}"
  shows "unique_integer_key d = 2"
proof -
  have sub: "{1..<2::int} \<subseteq> fst ` set d" unfolding assms(3) by auto
  have one: "(1::int) \<le> 2" by simp
  have n: "(2::int) \<notin> fst ` set d" unfolding assms(3) by simp
  have e: "\<exists>k\<in>fst ` set d. 2 < k" unfolding assms(3) by simp
  note h = key_hole [OF assms(1,2) one n sub e]
  from h have 1: "2 \<le> unique_integer_key d" by (rule conjunct1)
  from h have "unique_integer_key d + 1 \<in> fst ` set d" by (rule conjunct1 [OF conjunct2])
  then have 2: "unique_integer_key d + 1 = 1 \<or> unique_integer_key d + 1 = 3"
    unfolding assms(3) by simp
  show ?thesis using 1 2 by arith
qed

lemma registry_example_listeners:
  "update_listeners (heap registry_example 0) = [(1, Callback 0), (3, Callback 2)]"
  by (simp add: registry_example_def SimpleTask_init_def allocate_def Task_init_def
      empty_state_def add_def remove_def unique_integer_key_def Let_def AList.delete_eq)

text \<open>
  Claim C3. \<^verbatim>\<open>add\<close> returns an id that is not in the registry and registers the
  listener under it (at the end of the iteration order). With the ids handed out so far
  (distinct, positive): the id is 1 for an empty registry; it is the largest id plus one
  when the ids are exactly \<open>1, \<dots>, n\<close>; and when some id \<open>g\<close> is free below a registered
  one, with everything below \<open>g\<close> registered, the new id lies in that first gap: every id
  from \<open>g\<close> up to the new one is free and the next id above the new one is registered
  (the scan returns the last id of the first gap). With the ids 1 and 3 registered (three
  listeners added, the second removed) the next id is 2.
\<close>

theorem add_reuses_first_gap:
  assumes "distinct (map fst (update_listeners (heap s a)))"
    and "\<forall>k\<in>fst ` set (update_listeners (heap s a)). 1 \<le> k"
  shows "fst (add a l s) \<notin> fst ` set (update_listeners (heap s a)) \<and>
         1 \<le> fst (add a l s) \<and>
         update_listeners (heap (snd (add a l s)) a) =
           update_listeners (heap s a) @ [(fst (add a l s), l)] \<and>
         (fst ` set (update_listeners (heap s a)) = {} \<longrightarrow> fst (add a l s) = 1) \<and>
         (\<forall>n. 1 \<le> n \<and> fst ` set (update_listeners (heap s a)) = {1..n} \<longrightarrow>
              fst (add a l s) = n + 1 \<and> Max (fst ` set (update_listeners (heap s a))) = n) \<and>
         (\<forall>g. 1 \<le> g \<and> g \<notin> fst ` set (update_listeners (heap s a)) \<and>
              {1..<g} \<subseteq> fst ` set (update_listeners (heap s a)) \<and>
              (\<exists>k\<in>fst ` set (update_listeners (heap s a)). g < k) \<longrightarrow>
              g \<le> fst (add a l s) \<and>
              fst (add a l s) + 1 \<in> fst ` set (update_listeners (heap s a)) \<and>
              (\<forall>i. g \<le> i \<and> i \<le> fst (add a l s) \<longrightarrow>
                   i \<notin> fst ` set (update_listeners (heap s a)))) \<and>
         (fst ` set (update_listeners (heap s a)) = {1, 3} \<longrightarrow> fst (add a l s) = 2)"
proof -
  note dist = assms(1) and pos = assms(2)
  have fresh: "unique_integer_key (update_listeners (heap s a))
                 \<notin> fst ` set (update_listeners (heap s a))"
    by (rule unique_integer_key_props(1) [OF dist pos])
  have one: "1 \<le> unique_integer_key (update_listeners (heap s a))"
    by (rule unique_integer_key_props(2) [OF dist pos])
  have reg: "update_listeners (heap (snd (add a l s)) a) =
      update_listeners (heap s a) @ [(unique_integer_key (update_listeners (heap s a)), l)]"
    unfolding add_listeners by (rule update_fresh_appends [OF fresh])
  show ?thesis
    unfolding add_fst
  proof (intro conjI allI impI)
    show "unique_integer_key (update_listeners (heap s a))
                 \<notin> fst ` set (update_listeners (heap s a))" by (rule fresh)
    show "1 \<le> unique_integer_key (update_listeners (heap s a))" by (rule one)
    show "update_listeners (heap (snd (add a l s)) a) =
      update_listeners (heap s a) @ [(unique_integer_key (update_listeners (heap s a)), l)]"
      by (rule reg)
  next
    assume "fst ` set (update_listeners (heap s a)) = {}"
    then show "unique_integer_key (update_listeners (heap s a)) = 1"
      by (rule key_empty [OF dist pos])
  next
    fix n assume n: "1 \<le> n \<and> fst ` set (update_listeners (heap s a)) = {1..n}"
    note full = key_full [OF dist pos conjunct1 [OF n] conjunct2 [OF n]]
    show "unique_integer_key (update_listeners (heap s a)) = n + 1" by (rule conjunct1 [OF full])
    show "Max (fst ` set (update_listeners (heap s a))) = n" by (rule conjunct2 [OF full])
  next
    fix g assume g: "1 \<le> g \<and> g \<notin> fst ` set (update_listeners (heap s a)) \<and>
              {1..<g} \<subseteq> fst ` set (update_listeners (heap s a)) \<and>
              (\<exists>k\<in>fst ` set (update_listeners (heap s a)). g < k)"
    then have g1: "1 \<le> g" and g2: "g \<notin> fst ` set (update_listeners (heap s a))"
      and g3: "{1..<g} \<subseteq> fst ` set (update_listeners (heap s a))"
      and g4: "\<exists>k\<in>fst ` set (update_listeners (heap s a)). g < k" by blast+
    note hole = key_hole [OF dist pos g1 g2 g3 g4]
    show "g \<le> unique_integer_key (update_listeners (heap s a))" by (rule conjunct1 [OF hole])
    show "unique_integer_key (update_listeners (heap s a)) + 1
            \<in> fst ` set (update_listeners (heap s a))" by (rule conjunct1 [OF conjunct2 [OF hole]])
    fix i assume "g \<le> i \<and> i \<le> unique_integer_key (update_listeners (heap s a))"
    then show "i \<notin> fst ` set (update_listeners (heap s a))"
      using conjunct2 [OF conjunct2 [OF hole]] by blast
  next
    assume "fst ` set (update_listeners (heap s a)) = {1, 3}"
    then show "unique_integer_key (update_listeners (heap s a)) = 2"
      by (rule key_one_three [OF dist pos])
  qed
qed


theorem add_reuses_first_gap_witness:
  "update_listeners (heap registry_example 0) = [(1, Callback 0), (3, Callback 2)] \<and>
   fst (add 0 (Callback 3) registry_example) = 2 \<and>
   update_listeners (heap (snd (add 0 (Callback 3) registry_example)) 0) =
     [(1, Callback 0), (3, Callback 2), (2, Callback 3)]"
proof -
  note r = registry_example_listeners
  have d: "distinct (map fst (update_listeners (heap registry_example 0)))"
    by (simp add: r)
  have p: "\<forall>k\<in>fst ` set (update_listeners (heap registry_example 0)). 1 \<le> k"
    by (simp add: r)
  have k: "fst ` set (update_listeners (heap registry_example 0)) = {1, 3}"
    by (simp add: r)
  note t = add_reuses_first_gap [OF d p, of "Callback 3"]
  have two: "fst (add 0 (Callback 3) registry_example) = 2"
    using t k by blast
  have reg: "update_listeners (heap (snd (add 0 (Callback 3) registry_example)) 0) =
           update_listeners (heap registry_example 0) @ [(fst (add 0 (Callback 3) registry_example), Callback 3)]"
    using t by blast
  show ?thesis using r two reg by simp
qed

section \<open>Queries on well-formed stores\<close>

lemma wf_sub_tasks: "wf_state s \<Longrightarrow> a < next_addr s \<Longrightarrow> t \<in> set (sub_tasks (heap s a)) \<Longrightarrow> t < a"
  by (auto simp: wf_state_def)

lemma wf_listener:
  "wf_state s \<Longrightarrow> a < next_addr s \<Longrightarrow> (k, l) \<in> set (update_listeners (heap s a)) \<Longrightarrow>
     listener_ok s a l"
  by (fastforce simp: wf_state_def)

lemma body_multi_sub_tasks: "body t = MultiTask ts \<Longrightarrow> sub_tasks t = ts"
  by (simp add: sub_tasks_def)

text \<open>With the children below their parents, fuel above the address is enough, and more
  fuel changes nothing.\<close>

lemma is_done_fuel:
  "wf_state s \<Longrightarrow> a < next_addr s \<Longrightarrow> a < n \<Longrightarrow> is_done n (heap s) a = is_done (Suc a) (heap s) a"
proof (induction a arbitrary: n rule: less_induct)
  case (less a)
  obtain m where n: "n = Suc m" and m: "a \<le> m" using less.prems(3) by (cases n) auto
  show ?case
  proof (cases "body (heap s a)")
    case (MultiTask ts)
    have sub: "\<forall>t\<in>set ts. t < a"
      using wf_sub_tasks [OF less.prems(1,2)] body_multi_sub_tasks [OF MultiTask] by simp
    have e1: "map (is_done m (heap s)) ts = map (\<lambda>t. is_done (Suc t) (heap s) t) ts"
    proof (rule map_cong [OF refl])
      fix t assume t: "t \<in> set ts"
      then have "t < a" using sub by simp
      then show "is_done m (heap s) t = is_done (Suc t) (heap s) t"
        using less.IH [of t m] less.prems(1,2) m by simp
    qed
    have e2: "map (is_done a (heap s)) ts = map (\<lambda>t. is_done (Suc t) (heap s) t) ts"
    proof (rule map_cong [OF refl])
      fix t assume t: "t \<in> set ts"
      then have "t < a" using sub by simp
      then show "is_done a (heap s) t = is_done (Suc t) (heap s) t"
        using less.IH [of t a] less.prems(1,2) by simp
    qed
    have l: "is_done n (heap s) a = all_loop (map (is_done m (heap s)) ts)"
      using MultiTask n by simp
    have r: "is_done (Suc a) (heap s) a = all_loop (map (is_done a (heap s)) ts)"
      using MultiTask by simp
    show ?thesis unfolding l r e1 e2 by (rule refl)
  qed (simp_all add: n)
qed


lemma all_loop_Inr:
  "\<forall>r\<in>set rs. \<exists>d. r = Inr d \<Longrightarrow> all_loop rs = Inr (\<forall>r\<in>set rs. r = Inr True)"
proof (induction rs)
  case Nil
  then show ?case by simp
next
  case (Cons r rs)
  then obtain d where "r = Inr d" by auto
  then show ?case using Cons by auto
qed

lemma is_done_total:
  "wf_state s \<Longrightarrow> a < next_addr s \<Longrightarrow> a < n \<Longrightarrow> \<exists>d. is_done n (heap s) a = Inr d"
proof (induction a arbitrary: n rule: less_induct)
  case (less a)
  obtain m where n: "n = Suc m" and m: "a \<le> m" using less.prems(3) by (cases n) auto
  show ?case
  proof (cases "body (heap s a)")
    case (MultiTask ts)
    have sub: "\<forall>t\<in>set ts. t < a"
      using wf_sub_tasks [OF less.prems(1,2)] body_multi_sub_tasks [OF MultiTask] by simp
    have "\<forall>r\<in>set (map (is_done m (heap s)) ts). \<exists>d. r = Inr d"
    proof
      fix r assume "r \<in> set (map (is_done m (heap s)) ts)"
      then obtain t where t: "t \<in> set ts" and r: "r = is_done m (heap s) t" by auto
      have "t < a" using sub t by simp
      then show "\<exists>d. r = Inr d" using less.IH [of t m] less.prems(1,2) m r by simp
    qed
    then show ?thesis using MultiTask n all_loop_Inr by simp
  qed (simp_all add: n)
qed

section \<open>update on well-formed stores\<close>

lemma update_impl_shape [simp]:
  "sub_tasks (update_impl t) = sub_tasks t"
  "update_listeners (update_impl t) = update_listeners t"
  "is_multi (update_impl t) = is_multi t"
  "name (update_impl t) = name t"
  by (simp_all add: update_impl_def sub_tasks_def is_multi_def split: body.splits)

lemma reset_leaf_shape [simp]:
  "sub_tasks (reset_leaf t) = sub_tasks t"
  "update_listeners (reset_leaf t) = update_listeners t"
  "is_multi (reset_leaf t) = is_multi t"
  "name (reset_leaf t) = name t"
  by (simp_all add: reset_leaf_def sub_tasks_def is_multi_def split: body.splits)

lemma update_impl_multi: "is_multi t \<Longrightarrow> update_impl t = t"
  by (simp add: update_impl_def is_multi_def split: body.splits)

lemma reset_leaf_multi: "is_multi t \<Longrightarrow> reset_leaf t = t"
  by (simp add: reset_leaf_def is_multi_def split: body.splits)

lemma listener_ok_shape: "same_shape s s' \<Longrightarrow> listener_ok s' a l = listener_ok s a l"
  by (cases l) (simp_all add: same_shape_def listener_ok_def)

lemma wf_state_shape: "same_shape s s' \<Longrightarrow> wf_state s' = wf_state s"
  by (simp add: wf_state_def listener_ok_shape) (simp add: same_shape_def)

lemma same_shape_refl [simp]: "same_shape s s"
  by (simp add: same_shape_def)

lemma same_shape_calls [simp]: "same_shape s (s\<lparr>calls := c\<rparr>)"
  by (simp add: same_shape_def)

lemma same_shape_heap_eq: "heap s' = heap s \<Longrightarrow> next_addr s' = next_addr s \<Longrightarrow> same_shape s s'"
  by (simp add: same_shape_def)

lemma same_shape_update_impl [simp]:
  "same_shape s (s\<lparr>heap := (heap s)(a := update_impl (heap s a))\<rparr>)"
  by (simp add: same_shape_def)

lemma same_shape_reset_leaf [simp]:
  "same_shape s (s\<lparr>heap := (heap s)(a := reset_leaf (heap s a))\<rparr>)"
  by (simp add: same_shape_def)

lemma notify_calls:
  assumes "\<forall>kl\<in>set ls. \<forall>s. heap s = h \<and> next_addr s = N \<longrightarrow>
             (\<exists>L. call upd (snd kl) s = Inr (s\<lparr>calls := calls s @ L\<rparr>) \<and> (\<forall>e\<in>set L. a < fst e))"
    and "heap s = h" "next_addr s = N"
  shows "\<exists>L. notify upd a ls s = Inr (s\<lparr>calls := calls s @ L\<rparr>) \<and>
             (\<forall>e\<in>set L. a \<le> fst e) \<and>
             (\<forall>k. count_list L (a, k) = count_list (map fst ls) k)"
  using assms
proof (induction ls arbitrary: s)
  case Nil
  have "notify upd a [] s = Inr (s\<lparr>calls := calls s @ []\<rparr>)" by simp
  then show ?case by fastforce
next
  case (Cons kl rest)
  obtain k l where kl: "kl = (k, l)" by (cases kl)
  let ?s0 = "s\<lparr>calls := calls s @ [(a, k)]\<rparr>"
  have s0: "heap ?s0 = h \<and> next_addr ?s0 = N" using Cons.prems(2,3) by simp
  have "kl \<in> set (kl # rest)" by simp
  from Cons.prems(1) [THEN bspec, OF this, THEN spec, of ?s0, THEN mp, OF s0]
  obtain L1 where c: "call upd l ?s0 = Inr (?s0\<lparr>calls := calls ?s0 @ L1\<rparr>)"
    and L1: "\<forall>e\<in>set L1. a < fst e"
    unfolding kl by auto
  let ?s1 = "?s0\<lparr>calls := calls ?s0 @ L1\<rparr>"
  have s1: "heap ?s1 = h" "next_addr ?s1 = N" using Cons.prems(2,3) by simp_all
  have rest: "\<forall>kl\<in>set rest. \<forall>s. heap s = h \<and> next_addr s = N \<longrightarrow>
             (\<exists>L. call upd (snd kl) s = Inr (s\<lparr>calls := calls s @ L\<rparr>) \<and> (\<forall>e\<in>set L. a < fst e))"
    using Cons.prems(1) by simp
  obtain L2 where n2: "notify upd a rest ?s1 = Inr (?s1\<lparr>calls := calls ?s1 @ L2\<rparr>)"
    and L2: "\<forall>e\<in>set L2. a \<le> fst e"
    and c2: "\<forall>k. count_list L2 (a, k) = count_list (map fst rest) k"
    using Cons.IH [OF rest s1] by blast
  have no1: "count_list L1 (a, k') = 0" for k'
    using L1 by (fastforce simp: count_list_0_iff)
  have "notify upd a (kl # rest) s = Inr (s\<lparr>calls := calls s @ ((a, k) # L1 @ L2)\<rparr>)"
    using c n2 kl by simp
  moreover have "\<forall>e\<in>set ((a, k) # L1 @ L2). a \<le> fst e"
    using L1 L2 by fastforce
  moreover have "\<forall>k'. count_list ((a, k) # L1 @ L2) (a, k') = count_list (map fst (kl # rest)) k'"
    using c2 no1 kl by simp
  ultimately show ?case by blast
qed

lemma state_heap_triv: "s\<lparr>heap := (heap s)(a := heap s a)\<rparr> = s"
  by simp

lemma update_result:
  "wf_state s \<Longrightarrow> a < next_addr s \<Longrightarrow> 2 * next_addr s - a < n \<Longrightarrow>
   \<exists>d L. is_done (Suc a) (heap s) a = Inr d \<and>
     update n a s =
       Inr (if d then s
            else s\<lparr>heap := (heap s)(a := update_impl (heap s a)), calls := calls s @ L\<rparr>) \<and>
     (\<forall>e\<in>set L. a \<le> fst e) \<and>
     (\<not> d \<longrightarrow>
        (\<forall>k. count_list L (a, k) = count_list (map fst (update_listeners (heap s a))) k))"
proof (induction "next_addr s - a" arbitrary: a s n rule: less_induct)
  case less
  let ?N = "next_addr s"
  obtain m where n: "n = Suc m" and m: "2 * ?N - a \<le> m"
    using less.prems(3) by (cases n) auto
  have am: "a < m" using m less.prems(2) by linarith
  obtain d where d: "is_done (Suc a) (heap s) a = Inr d"
    using is_done_total [OF less.prems(1,2), of "Suc a"] by auto
  have dm: "is_done m (heap s) a = Inr d"
    using is_done_fuel [OF less.prems(1,2) am] d by simp
  show ?case
  proof (cases d)
    case True
    have "update n a s = Inr s" using n dm True by simp
    then have upd: "update n a s =
       Inr (if d then s
            else s\<lparr>heap := (heap s)(a := update_impl (heap s a)), calls := calls s @ []\<rparr>)"
      using True by simp
    show ?thesis
      by (rule exI [of _ d], rule exI [of _ "[]"]) (use d upd True in simp)
  next
    case False
    let ?s1 = "s\<lparr>heap := (heap s)(a := update_impl (heap s a))\<rparr>"
    let ?ls = "update_listeners (heap s a)"
    have u: "update n a s = notify (update m) a ?ls ?s1"
      using n dm False by (simp add: Let_def)
    have wf1: "wf_state ?s1" using wf_state_shape [OF same_shape_update_impl, of s a] less.prems(1) by simp
    have cascade: "\<forall>kl\<in>set ?ls. \<forall>s'. heap s' = heap ?s1 \<and> next_addr s' = ?N \<longrightarrow>
             (\<exists>L. call (update m) (snd kl) s' = Inr (s'\<lparr>calls := calls s' @ L\<rparr>) \<and> (\<forall>e\<in>set L. a < fst e))"
    proof (intro ballI allI impI)
      fix kl and s' :: state assume kl: "kl \<in> set ?ls" and s': "heap s' = heap ?s1 \<and> next_addr s' = ?N"
      obtain k l where kl2: "kl = (k, l)" by (cases kl)
      have ok: "listener_ok s a l" using wf_listener [OF less.prems(1,2)] kl kl2 by simp
      show "\<exists>L. call (update m) (snd kl) s' = Inr (s'\<lparr>calls := calls s' @ L\<rparr>) \<and> (\<forall>e\<in>set L. a < fst e)"
      proof (cases l)
        case (Callback c)
        have "call (update m) (snd kl) s' = Inr (s'\<lparr>calls := calls s' @ []\<rparr>)"
          using Callback kl2 by simp
        then show ?thesis by (intro exI [of _ "[]"]) simp
      next
        case (Update p)
        have p: "a < p" "p < ?N" "is_multi (heap s p)"
          using ok Update by (simp_all add: listener_ok_def)
        have sh: "same_shape ?s1 s'" using s' by (simp add: same_shape_heap_eq)
        have wf': "wf_state s'" using wf_state_shape [OF sh] wf1 by simp
        have pN: "p < next_addr s'" using s' p by simp
        have less': "next_addr s' - p < next_addr s - a" using s' p by simp
        have fuel': "2 * next_addr s' - p < m" using s' p m by simp
        obtain d' L' where
          r: "update m p s' =
               Inr (if d' then s'
                    else s'\<lparr>heap := (heap s')(p := update_impl (heap s' p)), calls := calls s' @ L'\<rparr>)"
          and L': "\<forall>e\<in>set L'. p \<le> fst e"
          using less.hyps [OF less' wf' pN fuel'] by blast
        have mp: "is_multi (heap s' p)" using s' p by simp
        have triv: "update_impl (heap s' p) = heap s' p" using update_impl_multi [OF mp] .
        let ?L = "if d' then [] else L'"
        have c1: "call (update m) (snd kl) s' = Inr (s'\<lparr>calls := calls s' @ ?L\<rparr>)"
          using r triv Update kl2 by simp
        have c2: "\<forall>e\<in>set ?L. a < fst e"
        proof
          fix e assume "e \<in> set ?L"
          then have "e \<in> set L'" by (simp split: if_splits)
          then have "p \<le> fst e" using L' by simp
          then show "a < fst e" using p(1) by simp
        qed
        show ?thesis by (rule exI [of _ ?L]) (use c1 c2 in blast)
      qed
    qed
    have h1: "heap ?s1 = heap ?s1" "next_addr ?s1 = ?N" by simp_all
    obtain L where L: "notify (update m) a ?ls ?s1 = Inr (?s1\<lparr>calls := calls ?s1 @ L\<rparr>)"
      and L1: "\<forall>e\<in>set L. a \<le> fst e"
      and L2: "\<forall>k. count_list L (a, k) = count_list (map fst ?ls) k"
      using notify_calls [OF cascade h1] by blast
    have upd: "update n a s =
       Inr (if d then s
            else s\<lparr>heap := (heap s)(a := update_impl (heap s a)), calls := calls s @ L\<rparr>)"
      using u L False by simp
    show ?thesis
      by (rule exI [of _ d], rule exI [of _ L]) (use d upd L1 L2 in blast)
  qed
qed

section \<open>reset on well-formed stores\<close>

lemma descendant_shape_imp:
  "descendant h a b \<Longrightarrow> \<forall>c. sub_tasks (h' c) = sub_tasks (h c) \<Longrightarrow> descendant h' a b"
proof (induction rule: descendant.induct)
  case (self a)
  show ?case by (rule descendant.self)
next
  case (child t a b)
  have "t \<in> set (sub_tasks (h' a))" using child.hyps(1) child.prems by simp
  then show ?case using child.IH [OF child.prems] by (rule descendant.child)
qed

lemma descendant_shape:
  "\<forall>c. sub_tasks (h' c) = sub_tasks (h c) \<Longrightarrow> descendant h' a b = descendant h a b"
  using descendant_shape_imp [of h a b h'] descendant_shape_imp [of h' a b h] by auto

lemma descendant_unfold:
  "descendant h a b = (a = b \<or> (\<exists>t\<in>set (sub_tasks (h a)). descendant h t b))"
proof
  assume "descendant h a b"
  then show "a = b \<or> (\<exists>t\<in>set (sub_tasks (h a)). descendant h t b)"
    by (cases rule: descendant.cases) auto
next
  assume "a = b \<or> (\<exists>t\<in>set (sub_tasks (h a)). descendant h t b)"
  then show "descendant h a b"
    by (auto intro: descendant.self descendant.child)
qed

lemma descendant_leaf: "sub_tasks (h a) = [] \<Longrightarrow> descendant h a b = (a = b)"
  using descendant_unfold [of h a b] by simp

lemma descendant_below:
  "descendant (heap s) a b \<Longrightarrow> wf_state s \<Longrightarrow> a < next_addr s \<Longrightarrow> b \<le> a"
proof (induction rule: descendant.induct)
  case (self a)
  show ?case by simp
next
  case (child t a b)
  have "t < a" using wf_sub_tasks [OF child.prems(1,2) child.hyps(1)] .
  then have "b \<le> t" using child.IH child.prems by simp
  then show ?case using \<open>t < a\<close> by simp
qed

lemma reset_leaf_idem [simp]: "reset_leaf (reset_leaf t) = reset_leaf t"
  by (simp add: reset_leaf_def split: body.splits)

lemma zeroed_shape [simp]:
  "sub_tasks (zeroed h a b) = sub_tasks (h b)"
  "update_listeners (zeroed h a b) = update_listeners (h b)"
  "is_multi (zeroed h a b) = is_multi (h b)"
  by (simp_all add: zeroed_def)

lemma zeroed_leaf: "sub_tasks (h a) = [] \<Longrightarrow> zeroed h a = h(a := reset_leaf (h a))"
  by (rule ext) (simp add: zeroed_def descendant_leaf)

lemma same_shape_zeroed [simp]: "same_shape s (s\<lparr>heap := zeroed (heap s) a\<rparr>)"
  by (simp add: same_shape_def)

lemma same_shape_trans: "same_shape s s' \<Longrightarrow> same_shape s' s'' \<Longrightarrow> same_shape s s''"
  by (simp add: same_shape_def)

lemma zeroed_all_Nil [simp]: "zeroed_all h [] = h"
  by (rule ext) (simp add: zeroed_all_def)

lemma zeroed_all_Cons: "zeroed_all (zeroed h t) ts = zeroed_all h (t # ts)"
proof (rule ext)
  fix b
  have d: "descendant (zeroed h t) x b = descendant h x b" for x
    by (rule descendant_shape) simp
  show "zeroed_all (zeroed h t) ts b = zeroed_all h (t # ts) b"
    by (auto simp: zeroed_all_def d) (simp_all add: zeroed_def)
qed

lemma zeroed_multi:
  "is_multi (h a) \<Longrightarrow> zeroed h a = zeroed_all h (sub_tasks (h a))"
proof (rule ext)
  fix b assume m: "is_multi (h a)"
  show "zeroed h a b = zeroed_all h (sub_tasks (h a)) b"
  proof (cases "a = b")
    case True
    then show ?thesis using m reset_leaf_multi [OF m]
      by (simp add: zeroed_def zeroed_all_def descendant.self)
  next
    case False
    then show ?thesis using descendant_unfold [of h a b]
      by (simp add: zeroed_def zeroed_all_def)
  qed
qed

lemma notify_update:
  assumes wf: "wf_state s" and a: "a < next_addr s" and m: "2 * next_addr s - a \<le> m"
  shows "\<exists>L. notify (update m) a (update_listeners (heap s a)) s = Inr (s\<lparr>calls := calls s @ L\<rparr>) \<and>
             (\<forall>e\<in>set L. a \<le> fst e) \<and>
             (\<forall>k. count_list L (a, k) = count_list (map fst (update_listeners (heap s a))) k)"
proof -
  let ?N = "next_addr s"
  let ?ls = "update_listeners (heap s a)"
  have cascade: "\<forall>kl\<in>set ?ls. \<forall>s'. heap s' = heap s \<and> next_addr s' = ?N \<longrightarrow>
             (\<exists>L. call (update m) (snd kl) s' = Inr (s'\<lparr>calls := calls s' @ L\<rparr>) \<and> (\<forall>e\<in>set L. a < fst e))"
  proof (intro ballI allI impI)
    fix kl and s' :: state assume kl: "kl \<in> set ?ls" and s': "heap s' = heap s \<and> next_addr s' = ?N"
    obtain k l where kl2: "kl = (k, l)" by (cases kl)
    have ok: "listener_ok s a l" using wf_listener [OF wf a] kl kl2 by simp
    show "\<exists>L. call (update m) (snd kl) s' = Inr (s'\<lparr>calls := calls s' @ L\<rparr>) \<and> (\<forall>e\<in>set L. a < fst e)"
    proof (cases l)
      case (Callback c)
      have "call (update m) (snd kl) s' = Inr (s'\<lparr>calls := calls s' @ []\<rparr>)"
        using Callback kl2 by simp
      then show ?thesis by (intro exI [of _ "[]"]) simp
    next
      case (Update p)
      have p: "a < p" "p < ?N" "is_multi (heap s p)"
        using ok Update by (simp_all add: listener_ok_def)
      have sh: "same_shape s s'" using s' by (simp add: same_shape_heap_eq)
      have wf': "wf_state s'" using wf_state_shape [OF sh] wf by simp
      have pN: "p < next_addr s'" using s' p by simp
      have fuel': "2 * next_addr s' - p < m" using s' p m by simp
      obtain d' L' where
        r: "update m p s' =
             Inr (if d' then s'
                  else s'\<lparr>heap := (heap s')(p := update_impl (heap s' p)), calls := calls s' @ L'\<rparr>)"
        and L': "\<forall>e\<in>set L'. p \<le> fst e"
        using update_result [OF wf' pN fuel'] by blast
      have mp: "is_multi (heap s' p)" using s' p by simp
      have triv: "update_impl (heap s' p) = heap s' p" using update_impl_multi [OF mp] .
      let ?L = "if d' then [] else L'"
      have c1: "call (update m) (snd kl) s' = Inr (s'\<lparr>calls := calls s' @ ?L\<rparr>)"
        using r triv Update kl2 by simp
      have c2: "\<forall>e\<in>set ?L. a < fst e"
      proof
        fix e assume "e \<in> set ?L"
        then have "e \<in> set L'" by (simp split: if_splits)
        then have "p \<le> fst e" using L' by simp
        then show "a < fst e" using p(1) by simp
      qed
      show ?thesis by (rule exI [of _ ?L]) (use c1 c2 in blast)
    qed
  qed
  show ?thesis by (rule notify_calls [OF cascade refl refl])
qed

lemma same_shape_zeroed_calls [simp]:
  "same_shape s (s\<lparr>heap := zeroed (heap s) a, calls := c\<rparr>)"
  by (simp add: same_shape_def)

lemma same_shape_next: "same_shape s s' \<Longrightarrow> next_addr s' = next_addr s"
  by (simp add: same_shape_def)

lemma same_shape_listeners:
  "same_shape s s' \<Longrightarrow> update_listeners (heap s' a) = update_listeners (heap s a)"
  by (simp add: same_shape_def)

lemma reset_loop_result:
  assumes "\<forall>t\<in>set ts. \<forall>s'. same_shape s0 s' \<and> wf_state s' \<longrightarrow>
             (\<exists>L. rst t s' = Inr (s'\<lparr>heap := zeroed (heap s') t, calls := calls s' @ L\<rparr>))"
    and "same_shape s0 s" "wf_state s"
  shows "\<exists>L. reset_loop rst ts s = Inr (s\<lparr>heap := zeroed_all (heap s) ts, calls := calls s @ L\<rparr>)"
  using assms
proof (induction ts arbitrary: s)
  case Nil
  show ?case by (rule exI [of _ "[]"]) simp
next
  case (Cons t ts)
  have "t \<in> set (t # ts)" by simp
  from Cons.prems(1) [THEN bspec, OF this, THEN spec, of s, THEN mp, OF conjI [OF Cons.prems(2,3)]]
  obtain L1 where r1: "rst t s = Inr (s\<lparr>heap := zeroed (heap s) t, calls := calls s @ L1\<rparr>)"
    by auto
  let ?s1 = "s\<lparr>heap := zeroed (heap s) t, calls := calls s @ L1\<rparr>"
  have sh1: "same_shape s0 ?s1"
    by (rule same_shape_trans [OF Cons.prems(2) same_shape_zeroed_calls])
  have wf1: "wf_state ?s1"
    using wf_state_shape [OF same_shape_zeroed_calls [where s = s and a = t and c = "calls s @ L1"]] Cons.prems(3) by simp
  have rest: "\<forall>t\<in>set ts. \<forall>s'. same_shape s0 s' \<and> wf_state s' \<longrightarrow>
             (\<exists>L. rst t s' = Inr (s'\<lparr>heap := zeroed (heap s') t, calls := calls s' @ L\<rparr>))"
    using Cons.prems(1) by simp
  obtain L2 where r2: "reset_loop rst ts ?s1 =
      Inr (?s1\<lparr>heap := zeroed_all (heap ?s1) ts, calls := calls ?s1 @ L2\<rparr>)"
    using Cons.IH [OF rest sh1 wf1] by auto
  have "reset_loop rst (t # ts) s =
      Inr (s\<lparr>heap := zeroed_all (heap s) (t # ts), calls := calls s @ (L1 @ L2)\<rparr>)"
    using r1 r2 by (simp add: zeroed_all_Cons)
  then show ?case by (rule exI [of _ "L1 @ L2"])
qed

lemma not_multi_sub_tasks: "\<not> is_multi t \<Longrightarrow> sub_tasks t = []"
  by (simp add: is_multi_def sub_tasks_def split: body.splits)

lemma reset_result:
  "wf_state s \<Longrightarrow> a < next_addr s \<Longrightarrow> 2 * next_addr s + a + 1 < n \<Longrightarrow>
   \<exists>L0 L1. reset n a s = Inr (s\<lparr>heap := zeroed (heap s) a, calls := calls s @ L0 @ L1\<rparr>) \<and>
     (\<forall>k. count_list L1 (a, k) = count_list (map fst (update_listeners (heap s a))) k)"
proof (induction a arbitrary: s n rule: less_induct)
  case (less a)
  let ?N = "next_addr s"
  obtain m where n: "n = Suc m" and m: "2 * ?N + a + 1 \<le> m"
    using less.prems(3) by (cases n) auto
  have own: "\<exists>L0. (case body (heap s a) of
              MultiTask ts \<Rightarrow> reset_loop (reset m) ts s
            | _ \<Rightarrow> Inr (s\<lparr>heap := (heap s)(a := reset_leaf (heap s a))\<rparr>))
          = Inr (s\<lparr>heap := zeroed (heap s) a, calls := calls s @ L0\<rparr>)"
  proof (cases "is_multi (heap s a)")
    case False
    have z: "zeroed (heap s) a = (heap s)(a := reset_leaf (heap s a))"
      using zeroed_leaf [of "heap s" a] not_multi_sub_tasks [OF False] by simp
    show ?thesis
      by (rule exI [of _ "[]"]) (use False z in \<open>simp add: is_multi_def split: body.splits\<close>)
  next
    case True
    then obtain ts where ts: "body (heap s a) = MultiTask ts"
      by (auto simp: is_multi_def split: body.splits)
    have sub: "sub_tasks (heap s a) = ts" by (rule body_multi_sub_tasks [OF ts])
    have step: "\<forall>t\<in>set ts. \<forall>s'. same_shape s s' \<and> wf_state s' \<longrightarrow>
             (\<exists>L. reset m t s' = Inr (s'\<lparr>heap := zeroed (heap s') t, calls := calls s' @ L\<rparr>))"
    proof (intro ballI allI impI)
      fix t and s' :: state assume t: "t \<in> set ts" and s': "same_shape s s' \<and> wf_state s'"
      have ta: "t < a" using wf_sub_tasks [OF less.prems(1,2)] t sub by simp
      have N': "next_addr s' = ?N" using s' by (simp add: same_shape_next)
      have tN: "t < next_addr s'" using ta less.prems(2) N' by simp
      have fuel: "2 * next_addr s' + t + 1 < m" using N' ta m by simp
      obtain L0 L1 where "reset m t s' =
          Inr (s'\<lparr>heap := zeroed (heap s') t, calls := calls s' @ L0 @ L1\<rparr>)"
        using less.IH [OF ta conjunct2 [OF s'] tN fuel] by blast
      then show "\<exists>L. reset m t s' = Inr (s'\<lparr>heap := zeroed (heap s') t, calls := calls s' @ L\<rparr>)"
        by (rule exI [of _ "L0 @ L1"])
    qed
    obtain L where "reset_loop (reset m) ts s =
        Inr (s\<lparr>heap := zeroed_all (heap s) ts, calls := calls s @ L\<rparr>)"
      using reset_loop_result [OF step same_shape_refl less.prems(1)] by blast
    then have "reset_loop (reset m) ts s =
        Inr (s\<lparr>heap := zeroed (heap s) a, calls := calls s @ L\<rparr>)"
      using zeroed_multi [of "heap s" a] True sub by simp
    then show ?thesis using ts by (intro exI [of _ L]) simp
  qed
  then obtain L0 where own': "(case body (heap s a) of
              MultiTask ts \<Rightarrow> reset_loop (reset m) ts s
            | _ \<Rightarrow> Inr (s\<lparr>heap := (heap s)(a := reset_leaf (heap s a))\<rparr>))
          = Inr (s\<lparr>heap := zeroed (heap s) a, calls := calls s @ L0\<rparr>)" by blast
  let ?s1 = "s\<lparr>heap := zeroed (heap s) a, calls := calls s @ L0\<rparr>"
  have sh: "same_shape s ?s1" by simp
  have wf1: "wf_state ?s1" using wf_state_shape [OF sh] less.prems(1) by simp
  have a1: "a < next_addr ?s1" using less.prems(2) by simp
  have m1: "2 * next_addr ?s1 - a \<le> m" using m by simp
  have ls: "update_listeners (heap ?s1 a) = update_listeners (heap s a)" by simp
  obtain L1 where no: "notify (update m) a (update_listeners (heap ?s1 a)) ?s1 =
        Inr (?s1\<lparr>calls := calls ?s1 @ L1\<rparr>)"
    and cnt: "\<forall>k. count_list L1 (a, k) = count_list (map fst (update_listeners (heap ?s1 a))) k"
    using notify_update [OF wf1 a1 m1] by blast
  have "reset n a s = Inr (s\<lparr>heap := zeroed (heap s) a, calls := calls s @ L0 @ L1\<rparr>)"
    using n own' no by simp
  then show ?case using cnt unfolding ls
    by (intro exI [of _ L0] exI [of _ L1] conjI)
qed

section \<open>Resetting a composite\<close>

lemmas init_defs = SimpleTask_init_def CounterTask_init_def MultiTask_init_def allocate_def
  Task_init_def empty_state_def add_def append_sub_task_def unique_integer_key_def Let_def

lemma two_leaves_example_eq:
  "two_leaves_example =
     \<lparr>heap = (\<lambda>a. Task_init [] (SimpleTask False))
        (0 := \<lparr>name = ''a'', update_listeners = [(1, Update 2)], body = SimpleTask False\<rparr>,
         1 := \<lparr>name = ''b'', update_listeners = [(1, Update 2)], body = SimpleTask False\<rparr>,
         2 := \<lparr>name = ''m'', update_listeners = [(1, Callback 0)], body = MultiTask [0, 1]\<rparr>),
      next_addr = 3, calls = []\<rparr>"
  by (simp add: two_leaves_example_def init_defs numeral_2_eq_2)

lemma wf_two_leaves_example: "wf_state two_leaves_example"
  by (simp add: two_leaves_example_eq wf_state_def listener_ok_def sub_tasks_def is_multi_def
      lessThan_Suc numeral_3_eq_3 Task_init_def)

lemma reset_two: "reset 10 2 two_leaves_example =
   Inr (two_leaves_example\<lparr>calls := [(0, 1), (2, 1), (1, 1), (2, 1), (2, 1)]\<rparr>)"
  by (simp add: two_leaves_example_eq eval_nat_numeral reset_leaf_def update_impl_def)

lemma is_zero_reset_leaf [simp]: "is_zero (reset_leaf t)"
  by (simp add: is_zero_def reset_leaf_def split: body.splits)

lemma subtree_size_fuel:
  "wf_state s \<Longrightarrow> a < next_addr s \<Longrightarrow> a < n \<Longrightarrow>
     subtree_size n (heap s) a = subtree_size (Suc a) (heap s) a"
proof (induction a arbitrary: n rule: less_induct)
  case (less a)
  obtain m where n: "n = Suc m" and m: "a \<le> m" using less.prems(3) by (cases n) auto
  have sub: "\<forall>t\<in>set (sub_tasks (heap s a)). t < a"
    using wf_sub_tasks [OF less.prems(1,2)] by simp
  have e1: "map (subtree_size m (heap s)) (sub_tasks (heap s a)) =
            map (\<lambda>t. subtree_size (Suc t) (heap s) t) (sub_tasks (heap s a))"
  proof (rule map_cong [OF refl])
    fix t assume t: "t \<in> set (sub_tasks (heap s a))"
    then have "t < a" using sub by simp
    then show "subtree_size m (heap s) t = subtree_size (Suc t) (heap s) t"
      using less.IH [of t m] less.prems(1,2) m by simp
  qed
  have e2: "map (subtree_size a (heap s)) (sub_tasks (heap s a)) =
            map (\<lambda>t. subtree_size (Suc t) (heap s) t) (sub_tasks (heap s a))"
  proof (rule map_cong [OF refl])
    fix t assume t: "t \<in> set (sub_tasks (heap s a))"
    then have "t < a" using sub by simp
    then show "subtree_size a (heap s) t = subtree_size (Suc t) (heap s) t"
      using less.IH [of t a] less.prems(1,2) by simp
  qed
  show ?case unfolding n subtree_size.simps e1 e2 by (rule refl)
qed

lemma subtree_size_shape:
  "\<forall>c. sub_tasks (h' c) = sub_tasks (h c) \<Longrightarrow> subtree_size n h' a = subtree_size n h a"
proof (induction n arbitrary: a)
  case 0
  show ?case by simp
next
  case (Suc n)
  have "subtree_size n h' = subtree_size n h"
    by (rule ext) (rule Suc.IH [OF Suc.prems])
  then show ?case using Suc.prems by simp
qed

lemma subtree_size_unfold:
  assumes "wf_state s" "a < next_addr s"
  shows "subtree_size (Suc a) (heap s) a =
         Suc (sum_list (map (\<lambda>t. subtree_size (Suc t) (heap s) t) (sub_tasks (heap s a))))"
proof -
  have "map (subtree_size a (heap s)) (sub_tasks (heap s a)) =
        map (\<lambda>t. subtree_size (Suc t) (heap s) t) (sub_tasks (heap s a))"
  proof (rule map_cong [OF refl])
    fix t assume t: "t \<in> set (sub_tasks (heap s a))"
    then have ta: "t < a" using wf_sub_tasks [OF assms] by simp
    then have "t < next_addr s" using assms(2) by simp
    then show "subtree_size a (heap s) t = subtree_size (Suc t) (heap s) t"
      using subtree_size_fuel [OF assms(1) _ ta] by simp
  qed
  moreover have "subtree_size (Suc a) (heap s) a =
      Suc (sum_list (map (subtree_size a (heap s)) (sub_tasks (heap s a))))"
    by simp
  ultimately show ?thesis by (simp only:)
qed

lemma has_work_reset_leaf [simp]: "has_work (reset_leaf t) = has_work t"
  by (simp add: has_work_def reset_leaf_def split: body.splits)

lemma has_work_zeroed [simp]: "has_work (zeroed h a b) = has_work (h b)"
  by (simp add: zeroed_def)

lemma tree_state_wf: "tree_state s \<Longrightarrow> wf_state s"
  by (simp add: tree_state_def)

lemma tree_state_shape: "same_shape s s' \<Longrightarrow> tree_state s' = tree_state s"
  using wf_state_shape [of s s'] by (simp add: tree_state_def same_shape_def)

lemma tree_state_child:
  "tree_state s \<Longrightarrow> a < next_addr s \<Longrightarrow> t \<in> set (sub_tasks (heap s a)) \<Longrightarrow>
     bound_updates (update_listeners (heap s t)) = [a]"
  by (simp add: tree_state_def)

lemma bound_updates_set:
  "(k, Update p) \<in> set ls \<Longrightarrow> p \<in> set (bound_updates ls)"
  by (induction ls rule: bound_updates.induct) auto

text \<open>A task with work to do whose leaves are in their zero state is not done.\<close>

lemma is_done_multi:
  assumes wf: "wf_state s" and a: "a < next_addr s" and m: "is_multi (heap s a)"
  shows "is_done (Suc a) (heap s) a =
         Inr (\<forall>t\<in>set (sub_tasks (heap s a)). is_done (Suc t) (heap s) t = Inr True)"
proof -
  obtain ts where ts: "body (heap s a) = MultiTask ts"
    using m by (auto simp: is_multi_def split: body.splits)
  have sub: "sub_tasks (heap s a) = ts" by (rule body_multi_sub_tasks [OF ts])
  have e: "map (is_done a (heap s)) ts = map (\<lambda>t. is_done (Suc t) (heap s) t) ts"
  proof (rule map_cong [OF refl])
    fix t assume t: "t \<in> set ts"
    then have ta: "t < a" using wf_sub_tasks [OF wf a] sub by simp
    then have "t < next_addr s" using a by simp
    then show "is_done a (heap s) t = is_done (Suc t) (heap s) t"
      using is_done_fuel [OF wf _ ta] by simp
  qed
  have tot: "\<forall>r\<in>set (map (\<lambda>t. is_done (Suc t) (heap s) t) ts). \<exists>d. r = Inr d"
  proof
    fix r assume "r \<in> set (map (\<lambda>t. is_done (Suc t) (heap s) t) ts)"
    then obtain t where t: "t \<in> set ts" and r: "r = is_done (Suc t) (heap s) t" by auto
    have ta: "t < a" using wf_sub_tasks [OF wf a] sub t by simp
    then have "t < next_addr s" using a by simp
    then show "\<exists>d. r = Inr d" using is_done_total [OF wf, of t "Suc t"] r by simp
  qed
  have "is_done (Suc a) (heap s) a = all_loop (map (is_done a (heap s)) ts)"
    using ts by simp
  also have "\<dots> = all_loop (map (\<lambda>t. is_done (Suc t) (heap s) t) ts)"
    by (simp only: e)
  also have "\<dots> = Inr (\<forall>r\<in>set (map (\<lambda>t. is_done (Suc t) (heap s) t) ts). r = Inr True)"
    by (rule all_loop_Inr [OF tot])
  finally show ?thesis using sub by simp
qed

lemma not_done_parent:
  assumes wf: "wf_state s" and a: "a < next_addr s"
    and t: "t \<in> set (sub_tasks (heap s a))"
    and nd: "is_done (Suc t) (heap s) t = Inr False"
  shows "is_done (Suc a) (heap s) a = Inr False"
proof -
  have m: "is_multi (heap s a)"
    using t by (cases "is_multi (heap s a)") (auto dest: not_multi_sub_tasks)
  have "\<not> (\<forall>t\<in>set (sub_tasks (heap s a)). is_done (Suc t) (heap s) t = Inr True)"
  proof
    assume "\<forall>t\<in>set (sub_tasks (heap s a)). is_done (Suc t) (heap s) t = Inr True"
    then have "is_done (Suc t) (heap s) t = Inr True" using t by (rule bspec)
    then show False unfolding nd by simp
  qed
  then show ?thesis unfolding is_done_multi [OF wf a m] by (simp only:)
qed

lemma not_done_up:
  "descendant (heap s) b a \<Longrightarrow> wf_state s \<Longrightarrow> b < next_addr s \<Longrightarrow>
     is_done (Suc a) (heap s) a = Inr False \<Longrightarrow> is_done (Suc b) (heap s) b = Inr False"
proof (induction rule: descendant.induct)
  case (self a)
  then show ?case by simp
next
  case (child t b a)
  have tb: "t < b" using wf_sub_tasks [OF child.prems(1,2) child.hyps(1)] .
  then have "t < next_addr s" using child.prems(2) by simp
  then have "is_done (Suc t) (heap s) t = Inr False" using child.IH child.prems by simp
  then show ?case by (rule not_done_parent [OF child.prems(1,2) child.hyps(1)])
qed

lemma not_done_zero:
  "wf_state s \<Longrightarrow> a < next_addr s \<Longrightarrow>
   \<forall>b. descendant (heap s) a b \<longrightarrow> has_work (heap s b) \<and> is_zero (heap s b) \<Longrightarrow>
   is_done (Suc a) (heap s) a = Inr False"
proof (induction a rule: less_induct)
  case (less a)
  have own: "has_work (heap s a)" "is_zero (heap s a)"
    using less.prems(3) descendant.self [of "heap s" a] by auto
  show ?case
  proof (cases "body (heap s a)")
    case (SimpleTask d)
    then show ?thesis using own by (simp add: is_zero_def)
  next
    case (CounterTask p l)
    then show ?thesis using own by (simp add: is_zero_def has_work_def)
  next
    case (MultiTask ts)
    have sub: "sub_tasks (heap s a) = ts" by (rule body_multi_sub_tasks [OF MultiTask])
    have "ts \<noteq> []" using own MultiTask by (simp add: has_work_def)
    then obtain t where t: "t \<in> set ts" by (cases ts) auto
    have ta: "t < a" using wf_sub_tasks [OF less.prems(1,2)] sub t by simp
    have tN: "t < next_addr s" using ta less.prems(2) by simp
    have below: "\<forall>b. descendant (heap s) t b \<longrightarrow> has_work (heap s b) \<and> is_zero (heap s b)"
      using less.prems(3) descendant.child [of t "heap s" a] t sub by auto
    have "is_done (Suc t) (heap s) t = Inr False"
      by (rule less.IH [OF ta less.prems(1) tN below])
    then show ?thesis using not_done_parent [OF less.prems(1,2)] t sub by simp
  qed
qed

lemma descendant_last:
  "descendant h b a \<Longrightarrow> b \<noteq> a \<Longrightarrow> \<exists>q. a \<in> set (sub_tasks (h q)) \<and> descendant h b q"
proof (induction rule: descendant.induct)
  case (self a)
  then show ?case by simp
next
  case (child t b a)
  show ?case
  proof (cases "t = a")
    case True
    then show ?thesis using child.hyps(1) descendant.self [of h b] by auto
  next
    case False
    then obtain q where "a \<in> set (sub_tasks (h q))" "descendant h t q"
      using child.IH by auto
    then show ?thesis using descendant.child [where h = h, OF child.hyps(1)] by auto
  qed
qed

lemma notify_counts:
  assumes "\<forall>kl\<in>set ls. \<forall>s. heap s = h \<and> next_addr s = N \<longrightarrow>
             (\<exists>L. call upd (snd kl) s = Inr (s\<lparr>calls := calls s @ L\<rparr>) \<and>
                  (\<forall>e\<in>set L. a < fst e) \<and> (\<forall>e\<in>E. count_list L e = F (snd kl) e))"
    and "heap s = h" "next_addr s = N"
  shows "\<exists>L. notify upd a ls s = Inr (s\<lparr>calls := calls s @ L\<rparr>) \<and>
             (\<forall>e\<in>set L. a \<le> fst e) \<and>
             (\<forall>k. count_list L (a, k) = count_list (map fst ls) k) \<and>
             (\<forall>e\<in>E. fst e \<noteq> a \<longrightarrow> count_list L e = sum_list (map (\<lambda>kl. F (snd kl) e) ls))"
  using assms
proof (induction ls arbitrary: s)
  case Nil
  have "notify upd a [] s = Inr (s\<lparr>calls := calls s @ []\<rparr>)" by simp
  then show ?case by (intro exI [of _ "[]"]) simp
next
  case (Cons kl rest)
  obtain k l where kl: "kl = (k, l)" by (cases kl)
  let ?s0 = "s\<lparr>calls := calls s @ [(a, k)]\<rparr>"
  have s0: "heap ?s0 = h \<and> next_addr ?s0 = N" using Cons.prems(2,3) by simp
  have "kl \<in> set (kl # rest)" by simp
  from Cons.prems(1) [THEN bspec, OF this, THEN spec, of ?s0, THEN mp, OF s0]
  obtain L1 where c: "call upd l ?s0 = Inr (?s0\<lparr>calls := calls ?s0 @ L1\<rparr>)"
    and L1: "\<forall>e\<in>set L1. a < fst e"
    and F1: "\<forall>e\<in>E. count_list L1 e = F l e"
    unfolding kl by auto
  let ?s1 = "?s0\<lparr>calls := calls ?s0 @ L1\<rparr>"
  have s1: "heap ?s1 = h" "next_addr ?s1 = N" using Cons.prems(2,3) by simp_all
  have rest: "\<forall>kl\<in>set rest. \<forall>s. heap s = h \<and> next_addr s = N \<longrightarrow>
             (\<exists>L. call upd (snd kl) s = Inr (s\<lparr>calls := calls s @ L\<rparr>) \<and>
                  (\<forall>e\<in>set L. a < fst e) \<and> (\<forall>e\<in>E. count_list L e = F (snd kl) e))"
    using Cons.prems(1) by simp
  obtain L2 where n2: "notify upd a rest ?s1 = Inr (?s1\<lparr>calls := calls ?s1 @ L2\<rparr>)"
    and L2: "\<forall>e\<in>set L2. a \<le> fst e"
    and c2: "\<forall>k. count_list L2 (a, k) = count_list (map fst rest) k"
    and F2: "\<forall>e\<in>E. fst e \<noteq> a \<longrightarrow> count_list L2 e = sum_list (map (\<lambda>kl. F (snd kl) e) rest)"
    using Cons.IH [OF rest s1] by blast
  have no1: "count_list L1 (a, k') = 0" for k'
    using L1 by (fastforce simp: count_list_0_iff)
  have r: "notify upd a (kl # rest) s = Inr (s\<lparr>calls := calls s @ ((a, k) # L1 @ L2)\<rparr>)"
    using c n2 kl by simp
  have e1: "\<forall>e\<in>set ((a, k) # L1 @ L2). a \<le> fst e"
    using L1 L2 by fastforce
  have e2: "\<forall>k'. count_list ((a, k) # L1 @ L2) (a, k') = count_list (map fst (kl # rest)) k'"
    using c2 no1 kl by simp
  have e3: "\<forall>e\<in>E. fst e \<noteq> a \<longrightarrow>
      count_list ((a, k) # L1 @ L2) e = sum_list (map (\<lambda>kl. F (snd kl) e) (kl # rest))"
  proof (intro ballI impI)
    fix e assume e: "e \<in> E" and ne: "fst e \<noteq> a"
    have "(a, k) \<noteq> e" using ne by auto
    then show "count_list ((a, k) # L1 @ L2) e = sum_list (map (\<lambda>kl. F (snd kl) e) (kl # rest))"
      using F1 F2 e ne kl by simp
  qed
  show ?case by (rule exI [of _ "(a, k) # L1 @ L2"]) (intro conjI r e1 e2 e3)
qed

lemma bound_updates_sum:
  "sum_list (map (\<lambda>kl. case snd kl of Callback c \<Rightarrow> 0 | Update p \<Rightarrow> n) ls) =
   length (bound_updates ls) * n"
  by (induction ls rule: bound_updates.induct) simp_all

text \<open>
  One pass over the registry of a task: every own listener is called once, and when the
  task is not done, neither is any composite above it, so each of them runs its own pass
  once.
\<close>

lemma pass_up:
  "tree_state s \<Longrightarrow> a < next_addr s \<Longrightarrow> 2 * next_addr s - a \<le> m \<Longrightarrow>
   \<exists>L. notify (update m) a (update_listeners (heap s a)) s = Inr (s\<lparr>calls := calls s @ L\<rparr>) \<and>
       (\<forall>e\<in>set L. a \<le> fst e) \<and>
       (\<forall>k. count_list L (a, k) = count_list (map fst (update_listeners (heap s a))) k) \<and>
       (is_done (Suc a) (heap s) a = Inr False \<longrightarrow>
          (\<forall>b k. b < next_addr s \<and> descendant (heap s) b a \<longrightarrow>
             count_list L (b, k) = count_list (map fst (update_listeners (heap s b))) k))"
proof (induction "next_addr s - a" arbitrary: a s m rule: less_induct)
  case less
  let ?N = "next_addr s"
  let ?h = "heap s"
  let ?ls = "update_listeners (heap s a)"
  have wf: "wf_state s" by (rule tree_state_wf [OF less.prems(1)])
  define E where "E = {e :: addr \<times> int. fst e < ?N \<and> descendant ?h (fst e) a \<and> fst e \<noteq> a \<and>
                          is_done (Suc a) ?h a = Inr False}"
  define F where "F = (\<lambda>l (e :: addr \<times> int). case l of Callback c \<Rightarrow> (0 :: nat)
                         | Update p \<Rightarrow> count_list (map fst (update_listeners (?h (fst e)))) (snd e))"
  have parent: "\<exists>q. q < ?N \<and> a \<in> set (sub_tasks (?h q)) \<and> descendant ?h b q \<and>
                    bound_updates ?ls = [q]"
    if b: "b < ?N" "descendant ?h b a" "b \<noteq> a" for b
  proof -
    obtain q where q: "a \<in> set (sub_tasks (?h q))" "descendant ?h b q"
      using descendant_last [OF b(2,3)] by blast
    have "q \<le> b" by (rule descendant_below [OF q(2) wf b(1)])
    then have qN: "q < ?N" using b(1) by simp
    have "bound_updates ?ls = [q]" by (rule tree_state_child [OF less.prems(1) qN q(1)])
    then show ?thesis using q qN by blast
  qed
  have cascade: "\<forall>kl\<in>set ?ls. \<forall>s'. heap s' = ?h \<and> next_addr s' = ?N \<longrightarrow>
             (\<exists>L. call (update m) (snd kl) s' = Inr (s'\<lparr>calls := calls s' @ L\<rparr>) \<and>
                  (\<forall>e\<in>set L. a < fst e) \<and> (\<forall>e\<in>E. count_list L e = F (snd kl) e))"
  proof (intro ballI allI impI)
    fix kl and s' :: state
    assume kl: "kl \<in> set ?ls" and s': "heap s' = ?h \<and> next_addr s' = ?N"
    obtain k l where kl2: "kl = (k, l)" by (cases kl)
    have ok: "listener_ok s a l" using wf_listener [OF wf less.prems(2)] kl kl2 by simp
    show "\<exists>L. call (update m) (snd kl) s' = Inr (s'\<lparr>calls := calls s' @ L\<rparr>) \<and>
              (\<forall>e\<in>set L. a < fst e) \<and> (\<forall>e\<in>E. count_list L e = F (snd kl) e)"
    proof (cases l)
      case (Callback c)
      have "call (update m) (snd kl) s' = Inr (s'\<lparr>calls := calls s' @ []\<rparr>)"
        using Callback kl2 by simp
      moreover have "\<forall>e\<in>E. count_list [] e = F (snd kl) e"
        using Callback kl2 by (simp add: F_def)
      ultimately show ?thesis by (intro exI [of _ "[]"]) simp
    next
      case (Update p)
      have p: "a < p" "p < ?N" "is_multi (heap s p)"
        using ok Update by (simp_all add: listener_ok_def)
      obtain m' where m': "m = Suc m'" and fuel': "2 * ?N - p \<le> m'"
        using less.prems(2,3) p by (cases m) auto
      have sh: "same_shape s s'" using s' by (simp add: same_shape_heap_eq)
      have tree': "tree_state s'" using tree_state_shape [OF sh] less.prems(1) by simp
      have wf': "wf_state s'" by (rule tree_state_wf [OF tree'])
      have pN: "p < next_addr s'" using s' p by simp
      have less': "next_addr s' - p < next_addr s - a" using s' p by simp
      have fuel'': "2 * next_addr s' - p \<le> m'" using s' fuel' by simp
      obtain L' where
        r: "notify (update m') p (update_listeners (heap s' p)) s' =
              Inr (s'\<lparr>calls := calls s' @ L'\<rparr>)"
        and L': "\<forall>e\<in>set L'. p \<le> fst e"
        and up: "is_done (Suc p) (heap s') p = Inr False \<longrightarrow>
          (\<forall>b k. b < next_addr s' \<and> descendant (heap s') b p \<longrightarrow>
             count_list L' (b, k) = count_list (map fst (update_listeners (heap s' b))) k)"
        using less.hyps [OF less' tree' pN fuel''] by blast
      obtain d where d: "is_done (Suc p) ?h p = Inr d"
        using is_done_total [OF wf p(2), of "Suc p"] by auto
      have pm: "p < m'" using fuel' p(2) by linarith
      have dm: "is_done m' (heap s') p = Inr d"
        using is_done_fuel [OF wf p(2) pm] d s' by simp
      have mp: "is_multi (heap s' p)" using s' p by simp
      have triv: "s'\<lparr>heap := (heap s')(p := update_impl (heap s' p))\<rparr> = s'"
        using update_impl_multi [OF mp] by simp
      let ?L = "if d then [] else L'"
      have "update m p s' = (if d then Inr s' else
              notify (update m') p (update_listeners (heap s' p)) s')"
        unfolding m' using dm triv by (simp add: Let_def)
      then have c1: "call (update m) (snd kl) s' = Inr (s'\<lparr>calls := calls s' @ ?L\<rparr>)"
        using r Update kl2 by simp
      have c2: "\<forall>e\<in>set ?L. a < fst e"
      proof
        fix e assume "e \<in> set ?L"
        then have "e \<in> set L'" by (simp split: if_splits)
        then have "p \<le> fst e" using L' by simp
        then show "a < fst e" using p(1) by simp
      qed
      have c3: "\<forall>e\<in>E. count_list ?L e = F (snd kl) e"
      proof
        fix e assume e: "e \<in> E"
        obtain b k' where bk: "e = (b, k')" by (cases e)
        have b: "b < ?N" "descendant ?h b a" "b \<noteq> a" and nd: "is_done (Suc a) ?h a = Inr False"
          using e bk by (simp_all add: E_def)
        obtain q where q: "q < ?N" "a \<in> set (sub_tasks (?h q))" "descendant ?h b q"
          "bound_updates ?ls = [q]"
          using parent [OF b] by blast
        have "p \<in> set (bound_updates ?ls)"
          using bound_updates_set [of k p ?ls] kl kl2 Update by simp
        then have pq: "p = q" using q(4) by simp
        have "is_done (Suc p) ?h p = Inr False"
          using not_done_parent [OF wf q(1,2) nd] pq by simp
        then have dF: "\<not> d" using d by simp
        have "is_done (Suc p) (heap s') p = Inr False" using d dF s' by simp
        then have "count_list L' (b, k') = count_list (map fst (update_listeners (heap s' b))) k'"
          using up b(1) q(3) pq s' by simp
        then show "count_list ?L e = F (snd kl) e"
          using dF bk kl2 Update s' by (simp add: F_def)
      qed
      show ?thesis by (rule exI [of _ ?L]) (intro conjI c1 c2 c3)
    qed
  qed
  obtain L where n: "notify (update m) a ?ls s = Inr (s\<lparr>calls := calls s @ L\<rparr>)"
    and L1: "\<forall>e\<in>set L. a \<le> fst e"
    and L2: "\<forall>k. count_list L (a, k) = count_list (map fst ?ls) k"
    and L3: "\<forall>e\<in>E. fst e \<noteq> a \<longrightarrow> count_list L e = sum_list (map (\<lambda>kl. F (snd kl) e) ?ls)"
    using notify_counts [OF cascade refl refl] by blast
  have L4: "is_done (Suc a) ?h a = Inr False \<longrightarrow>
          (\<forall>b k. b < ?N \<and> descendant ?h b a \<longrightarrow>
             count_list L (b, k) = count_list (map fst (update_listeners (?h b))) k)"
  proof (intro impI allI)
    fix b k assume nd: "is_done (Suc a) ?h a = Inr False" and b: "b < ?N \<and> descendant ?h b a"
    show "count_list L (b, k) = count_list (map fst (update_listeners (?h b))) k"
    proof (cases "b = a")
      case True
      then show ?thesis using L2 by simp
    next
      case False
      obtain q where q: "bound_updates ?ls = [q]"
        using parent [of b] b False by blast
      have "(b, k) \<in> E" using b False nd by (simp add: E_def)
      then have "count_list L (b, k) = sum_list (map (\<lambda>kl. F (snd kl) (b, k)) ?ls)"
        using L3 False by simp
      also have "\<dots> = length (bound_updates ?ls) * count_list (map fst (update_listeners (?h b))) k"
        unfolding F_def by (simp add: bound_updates_sum)
      finally show ?thesis using q by simp
    qed
  qed
  show ?case by (rule exI [of _ L]) (intro conjI n L1 L2 L4)
qed

lemma descendant_snoc:
  "descendant h b a \<Longrightarrow> t \<in> set (sub_tasks (h a)) \<Longrightarrow> descendant h b t"
proof (induction rule: descendant.induct)
  case (self a)
  show ?case by (rule descendant.child [where h = h, OF self descendant.self])
next
  case (child u b a)
  show ?case by (rule descendant.child [where h = h, OF child.hyps(1) child.IH [OF child.prems]])
qed

lemma reset_loop_counts:
  assumes "\<forall>t\<in>set ts. \<forall>s'. Q s' \<longrightarrow>
             (\<exists>L. rst t s' = Inr (s'\<lparr>heap := zeroed (heap s') t, calls := calls s' @ L\<rparr>) \<and>
                  (\<forall>e\<in>E. count_list L e = G t e))"
    and "\<forall>s' t L. Q s' \<longrightarrow> Q (s'\<lparr>heap := zeroed (heap s') t, calls := calls s' @ L\<rparr>)"
    and "Q s"
  shows "\<exists>L. reset_loop rst ts s = Inr (s\<lparr>heap := zeroed_all (heap s) ts, calls := calls s @ L\<rparr>) \<and>
             (\<forall>e\<in>E. count_list L e = sum_list (map (\<lambda>t. G t e) ts))"
  using assms
proof (induction ts arbitrary: s)
  case Nil
  show ?case by (rule exI [of _ "[]"]) simp
next
  case (Cons t ts)
  have "t \<in> set (t # ts)" by simp
  from Cons.prems(1) [THEN bspec, OF this, THEN spec, of s, THEN mp, OF Cons.prems(3)]
  obtain L1 where r1: "rst t s = Inr (s\<lparr>heap := zeroed (heap s) t, calls := calls s @ L1\<rparr>)"
    and g1: "\<forall>e\<in>E. count_list L1 e = G t e"
    by auto
  let ?s1 = "s\<lparr>heap := zeroed (heap s) t, calls := calls s @ L1\<rparr>"
  have Q1: "Q ?s1" using Cons.prems(2,3) by blast
  have rest: "\<forall>t\<in>set ts. \<forall>s'. Q s' \<longrightarrow>
             (\<exists>L. rst t s' = Inr (s'\<lparr>heap := zeroed (heap s') t, calls := calls s' @ L\<rparr>) \<and>
                  (\<forall>e\<in>E. count_list L e = G t e))"
    using Cons.prems(1) by simp
  obtain L2 where r2: "reset_loop rst ts ?s1 =
      Inr (?s1\<lparr>heap := zeroed_all (heap ?s1) ts, calls := calls ?s1 @ L2\<rparr>)"
    and g2: "\<forall>e\<in>E. count_list L2 e = sum_list (map (\<lambda>t. G t e) ts)"
    using Cons.IH [OF rest Cons.prems(2) Q1] by auto
  have r: "reset_loop rst (t # ts) s =
      Inr (s\<lparr>heap := zeroed_all (heap s) (t # ts), calls := calls s @ (L1 @ L2)\<rparr>)"
    using r1 r2 by (simp add: zeroed_all_Cons)
  have g: "\<forall>e\<in>E. count_list (L1 @ L2) e = sum_list (map (\<lambda>t. G t e) (t # ts))"
    using g1 g2 by simp
  show ?case by (rule exI [of _ "L1 @ L2"]) (intro conjI r g)
qed

text \<open>
  \<^verbatim>\<open>reset()\<close> of a task in a tree: the task and every composite above it run the pass
  over their own registry once for each task of the subtree.
\<close>

lemma reset_counts:
  "tree_state s \<Longrightarrow> a < next_addr s \<Longrightarrow> 2 * next_addr s + a + 1 < n \<Longrightarrow>
   \<forall>b. descendant (heap s) a b \<and> b \<noteq> a \<longrightarrow> has_work (heap s b) \<Longrightarrow>
   \<exists>L. reset n a s = Inr (s\<lparr>heap := zeroed (heap s) a, calls := calls s @ L\<rparr>) \<and>
       (\<forall>b k. b < next_addr s \<and> descendant (heap s) b a \<and> (b = a \<or> has_work (heap s a)) \<longrightarrow>
          count_list L (b, k) =
            subtree_size (Suc a) (heap s) a * count_list (map fst (update_listeners (heap s b))) k)"
proof (induction a arbitrary: s n rule: less_induct)
  case (less a)
  let ?N = "next_addr s"
  let ?h = "heap s"
  let ?c = "\<lambda>e :: addr \<times> int. count_list (map fst (update_listeners (?h (fst e)))) (snd e)"
  have wf: "wf_state s" by (rule tree_state_wf [OF less.prems(1)])
  obtain m where n: "n = Suc m" and m: "2 * ?N + a + 1 \<le> m"
    using less.prems(3) by (cases n) auto
  define E where "E = {e :: addr \<times> int. fst e < ?N \<and> descendant ?h (fst e) a}"
  define G where "G = (\<lambda>t e. subtree_size (Suc t) ?h t * ?c e)"
  define Q where "Q = (\<lambda>s'. same_shape s s' \<and> tree_state s' \<and>
                             (\<forall>b. has_work (heap s' b) = has_work (?h b)))"
  have Qpres: "\<forall>s' t L. Q s' \<longrightarrow> Q (s'\<lparr>heap := zeroed (heap s') t, calls := calls s' @ L\<rparr>)"
  proof (intro allI impI)
    fix s' :: state and t L assume q: "Q s'"
    let ?s2 = "s'\<lparr>heap := zeroed (heap s') t, calls := calls s' @ L\<rparr>"
    have sh2: "same_shape s' ?s2" by simp
    have 1: "same_shape s ?s2" using same_shape_trans [OF _ sh2] q by (simp add: Q_def)
    have 2: "tree_state ?s2" using tree_state_shape [OF sh2] q by (simp add: Q_def)
    have 3: "\<forall>b. has_work (heap ?s2 b) = has_work (?h b)" using q by (simp add: Q_def)
    show "Q ?s2" unfolding Q_def by (intro conjI 1 2 3)
  qed
  have Qs: "Q s" using less.prems(1) by (simp add: Q_def)
  have own: "\<exists>L0. (case body (heap s a) of
              MultiTask ts \<Rightarrow> reset_loop (reset m) ts s
            | _ \<Rightarrow> Inr (s\<lparr>heap := (heap s)(a := reset_leaf (heap s a))\<rparr>))
          = Inr (s\<lparr>heap := zeroed (heap s) a, calls := calls s @ L0\<rparr>) \<and>
          (\<forall>e\<in>E. count_list L0 e = sum_list (map (\<lambda>t. G t e) (sub_tasks (?h a))))"
  proof (cases "is_multi (heap s a)")
    case False
    have z: "zeroed (heap s) a = (heap s)(a := reset_leaf (heap s a))"
      using zeroed_leaf [of "heap s" a] not_multi_sub_tasks [OF False] by simp
    have "(case body (heap s a) of
              MultiTask ts \<Rightarrow> reset_loop (reset m) ts s
            | _ \<Rightarrow> Inr (s\<lparr>heap := (heap s)(a := reset_leaf (heap s a))\<rparr>))
          = Inr (s\<lparr>heap := zeroed (heap s) a, calls := calls s @ []\<rparr>)"
      using False z by (simp add: is_multi_def split: body.splits)
    moreover have "\<forall>e\<in>E. count_list [] e = sum_list (map (\<lambda>t. G t e) (sub_tasks (?h a)))"
      using not_multi_sub_tasks [OF False] by simp
    ultimately show ?thesis by (intro exI [of _ "[]"] conjI)
  next
    case True
    then obtain ts where ts: "body (heap s a) = MultiTask ts"
      by (auto simp: is_multi_def split: body.splits)
    have sub: "sub_tasks (heap s a) = ts" by (rule body_multi_sub_tasks [OF ts])
    have step: "\<forall>t\<in>set ts. \<forall>s'. Q s' \<longrightarrow>
             (\<exists>L. reset m t s' = Inr (s'\<lparr>heap := zeroed (heap s') t, calls := calls s' @ L\<rparr>) \<and>
                  (\<forall>e\<in>E. count_list L e = G t e))"
    proof (intro ballI allI impI)
      fix t and s' :: state assume t: "t \<in> set ts" and q: "Q s'"
      have sh: "same_shape s s'" and tree': "tree_state s'"
        and hw: "\<forall>b. has_work (heap s' b) = has_work (?h b)"
        using q by (simp_all add: Q_def)
      have subs: "\<forall>c. sub_tasks (heap s' c) = sub_tasks (?h c)"
        using sh by (simp add: same_shape_def)
      have desc: "descendant (heap s') x y = descendant ?h x y" for x y
        by (rule descendant_shape [OF subs])
      have size: "subtree_size k (heap s') x = subtree_size k ?h x" for k x
        by (rule subtree_size_shape [OF subs])
      have ta: "t < a" using wf_sub_tasks [OF wf less.prems(2)] t sub by simp
      have N': "next_addr s' = ?N" using sh by (simp add: same_shape_next)
      have tN: "t < next_addr s'" using ta less.prems(2) N' by simp
      have tN0: "t < ?N" using ta less.prems(2) by simp
      have fuel: "2 * next_addr s' + t + 1 < m" using N' ta m by simp
      have at: "descendant ?h a t"
        using descendant.child [where h = ?h, OF _ descendant.self, of t a] t sub by simp
      have below: "\<forall>b. descendant (heap s') t b \<and> b \<noteq> t \<longrightarrow> has_work (heap s' b)"
      proof (intro allI impI)
        fix b assume b: "descendant (heap s') t b \<and> b \<noteq> t"
        then have tb: "descendant ?h t b" using desc by simp
        have "b \<le> t" by (rule descendant_below [OF tb wf tN0])
        then have "b \<noteq> a" using ta by simp
        moreover have "descendant ?h a b"
          using descendant.child [where h = ?h, OF _ tb, of a] t sub by simp
        ultimately show "has_work (heap s' b)" using less.prems(4) hw by simp
      qed
      have wt: "has_work (heap s' t)" using less.prems(4) hw at ta by simp
      obtain L where r: "reset m t s' =
            Inr (s'\<lparr>heap := zeroed (heap s') t, calls := calls s' @ L\<rparr>)"
        and c: "\<forall>b k. b < next_addr s' \<and> descendant (heap s') b t \<and>
                  (b = t \<or> has_work (heap s' t)) \<longrightarrow>
                count_list L (b, k) = subtree_size (Suc t) (heap s') t *
                  count_list (map fst (update_listeners (heap s' b))) k"
        using less.IH [OF ta tree' tN fuel below] by blast
      have g: "\<forall>e\<in>E. count_list L e = G t e"
      proof
        fix e assume e: "e \<in> E"
        obtain b k where bk: "e = (b, k)" by (cases e)
        have b: "b < ?N" "descendant ?h b a" using e bk by (simp_all add: E_def)
        have "descendant ?h b t" using descendant_snoc [OF b(2)] t sub by simp
        then have "count_list L (b, k) = subtree_size (Suc t) (heap s') t *
                  count_list (map fst (update_listeners (heap s' b))) k"
          using c b(1) N' wt desc by simp
        then show "count_list L e = G t e"
          using bk size same_shape_listeners [OF sh] by (simp add: G_def)
      qed
      show "\<exists>L. reset m t s' = Inr (s'\<lparr>heap := zeroed (heap s') t, calls := calls s' @ L\<rparr>) \<and>
                  (\<forall>e\<in>E. count_list L e = G t e)"
        by (rule exI [of _ L]) (intro conjI r g)
    qed
    obtain L where r: "reset_loop (reset m) ts s =
        Inr (s\<lparr>heap := zeroed_all (heap s) ts, calls := calls s @ L\<rparr>)"
      and g: "\<forall>e\<in>E. count_list L e = sum_list (map (\<lambda>t. G t e) ts)"
      using reset_loop_counts [where Q = Q, OF step Qpres Qs] by blast
    have "reset_loop (reset m) ts s =
        Inr (s\<lparr>heap := zeroed (heap s) a, calls := calls s @ L\<rparr>)"
      using r zeroed_multi [of "heap s" a] True sub by simp
    then have "(case body (heap s a) of
              MultiTask ts \<Rightarrow> reset_loop (reset m) ts s
            | _ \<Rightarrow> Inr (s\<lparr>heap := (heap s)(a := reset_leaf (heap s a))\<rparr>))
          = Inr (s\<lparr>heap := zeroed (heap s) a, calls := calls s @ L\<rparr>)"
      using ts by simp
    then show ?thesis using g sub by (intro exI [of _ L] conjI) simp_all
  qed
  then obtain L0 where own': "(case body (heap s a) of
              MultiTask ts \<Rightarrow> reset_loop (reset m) ts s
            | _ \<Rightarrow> Inr (s\<lparr>heap := (heap s)(a := reset_leaf (heap s a))\<rparr>))
          = Inr (s\<lparr>heap := zeroed (heap s) a, calls := calls s @ L0\<rparr>)"
    and g0: "\<forall>e\<in>E. count_list L0 e = sum_list (map (\<lambda>t. G t e) (sub_tasks (?h a)))"
    by blast
  let ?s1 = "s\<lparr>heap := zeroed (heap s) a, calls := calls s @ L0\<rparr>"
  have sh: "same_shape s ?s1" by simp
  have tree1: "tree_state ?s1" using tree_state_shape [OF sh] less.prems(1) by simp
  have wf1: "wf_state ?s1" by (rule tree_state_wf [OF tree1])
  have a1: "a < next_addr ?s1" using less.prems(2) by simp
  have m1: "2 * next_addr ?s1 - a \<le> m" using m by simp
  have subs1: "\<forall>c. sub_tasks (heap ?s1 c) = sub_tasks (?h c)" by simp
  have desc1: "descendant (heap ?s1) x y = descendant ?h x y" for x y
    by (rule descendant_shape [OF subs1])
  obtain L1 where no: "notify (update m) a (update_listeners (heap ?s1 a)) ?s1 =
        Inr (?s1\<lparr>calls := calls ?s1 @ L1\<rparr>)"
    and own1: "\<forall>k. count_list L1 (a, k) = count_list (map fst (update_listeners (heap ?s1 a))) k"
    and up1: "is_done (Suc a) (heap ?s1) a = Inr False \<longrightarrow>
          (\<forall>b k. b < next_addr ?s1 \<and> descendant (heap ?s1) b a \<longrightarrow>
             count_list L1 (b, k) = count_list (map fst (update_listeners (heap ?s1 b))) k)"
    using pass_up [OF tree1 a1 m1] by blast
  have r: "reset n a s = Inr (s\<lparr>heap := zeroed (heap s) a, calls := calls s @ (L0 @ L1)\<rparr>)"
    using n own' no by simp
  have size: "subtree_size (Suc a) ?h a =
      Suc (sum_list (map (\<lambda>t. subtree_size (Suc t) ?h t) (sub_tasks (?h a))))"
    by (rule subtree_size_unfold [OF wf less.prems(2)])
  have sumG: "sum_list (map (\<lambda>t. G t e) (sub_tasks (?h a))) =
      sum_list (map (\<lambda>t. subtree_size (Suc t) ?h t) (sub_tasks (?h a))) * ?c e" for e
    unfolding G_def by (rule sum_list_mult_const)
  have cnt: "\<forall>b k. b < ?N \<and> descendant ?h b a \<and> (b = a \<or> has_work (?h a)) \<longrightarrow>
          count_list (L0 @ L1) (b, k) =
            subtree_size (Suc a) ?h a * count_list (map fst (update_listeners (?h b))) k"
  proof (intro allI impI)
    fix b k assume b: "b < ?N \<and> descendant ?h b a \<and> (b = a \<or> has_work (?h a))"
    have inE: "(b, k) \<in> E" using b by (simp add: E_def)
    have c0: "count_list L0 (b, k) =
        sum_list (map (\<lambda>t. subtree_size (Suc t) ?h t) (sub_tasks (?h a))) *
          count_list (map fst (update_listeners (?h b))) k"
      using g0 inE sumG [of "(b, k)"] by simp
    have c1: "count_list L1 (b, k) = count_list (map fst (update_listeners (?h b))) k"
    proof (cases "b = a")
      case True
      then show ?thesis using own1 by simp
    next
      case False
      then have w: "has_work (?h a)" using b by simp
      have zero: "\<forall>x. descendant (heap ?s1) a x \<longrightarrow>
                       has_work (heap ?s1 x) \<and> is_zero (heap ?s1 x)"
      proof (intro allI impI)
        fix x assume "descendant (heap ?s1) a x"
        then have x: "descendant ?h a x" using desc1 by simp
        have "has_work (?h x)" using w less.prems(4) x by (cases "x = a") simp_all
        moreover have "is_zero (zeroed ?h a x)" using x by (simp add: zeroed_def)
        ultimately show "has_work (heap ?s1 x) \<and> is_zero (heap ?s1 x)" by simp
      qed
      have "is_done (Suc a) (heap ?s1) a = Inr False"
        by (rule not_done_zero [OF wf1 a1 zero])
      then have "count_list L1 (b, k) = count_list (map fst (update_listeners (heap ?s1 b))) k"
        using up1 b desc1 by simp
      then show ?thesis by simp
    qed
    show "count_list (L0 @ L1) (b, k) =
            subtree_size (Suc a) ?h a * count_list (map fst (update_listeners (?h b))) k"
      unfolding size using c0 c1 by simp
  qed
  show ?case by (rule exI [of _ "L0 @ L1"]) (intro conjI r cnt)
qed

lemma nested_example_eq:
  "nested_example =
     \<lparr>heap = (\<lambda>a. Task_init [] (SimpleTask False))
        (0 := \<lparr>name = ''a'', update_listeners = [(1, Update 2)], body = SimpleTask False\<rparr>,
         1 := \<lparr>name = ''b'', update_listeners = [(1, Update 2)], body = CounterTask 0 2\<rparr>,
         2 := \<lparr>name = ''inner'', update_listeners = [(1, Update 4)], body = MultiTask [0, 1]\<rparr>,
         3 := \<lparr>name = ''c'', update_listeners = [(1, Update 4)], body = SimpleTask False\<rparr>,
         4 := \<lparr>name = ''outer'', update_listeners = [(1, Callback 0)], body = MultiTask [2, 3]\<rparr>),
      next_addr = 5, calls = []\<rparr>"
  by (simp add: nested_example_def init_defs eval_nat_numeral)

lemma driven_example_tasks:
  "heap driven_example 0 =
     \<lparr>name = ''a'', update_listeners = [(1, Update 2)], body = SimpleTask True\<rparr>"
  "heap driven_example 1 =
     \<lparr>name = ''b'', update_listeners = [(1, Update 2)], body = CounterTask 1 2\<rparr>"
  "heap driven_example 2 =
     \<lparr>name = ''inner'', update_listeners = [(1, Update 4)], body = MultiTask [0, 1]\<rparr>"
  "heap driven_example 3 =
     \<lparr>name = ''c'', update_listeners = [(1, Update 4)], body = SimpleTask True\<rparr>"
  "heap driven_example 4 =
     \<lparr>name = ''outer'', update_listeners = [(1, Callback 0)], body = MultiTask [2, 3]\<rparr>"
  "next_addr driven_example = 5"
  "calls driven_example = [(0, 1), (2, 1), (4, 1), (1, 1), (2, 1), (4, 1), (3, 1), (4, 1)]"
  by (simp_all add: driven_example_def nested_example_eq eval_nat_numeral update_impl_def)

lemma below_five: "{..<(5 :: nat)} = {0, 1, 2, 3, 4}"
  by auto

lemma tree_driven_example: "tree_state driven_example"
  by (simp add: tree_state_def wf_state_def listener_ok_def sub_tasks_def is_multi_def
      driven_example_tasks driven_example_tasks(2) [unfolded One_nat_def] below_five)

text \<open>
  Claim C1, as the code has it. On a well-formed store and with enough depth,
  \<^verbatim>\<open>reset()\<close> of a task returns; afterwards every leaf below the task is in its
  zero state (flag false, counter 0) and every other task is as before. Every own
  listener is called at least once. In a tree in which the tasks below the one reset
  are not done once reset (counted leaves with positive targets, composites with
  children), the number of calls is exact: each own listener is called once for every
  task of the subtree, the task itself included (for each time its key is registered,
  which is once). So it is called exactly once only when nothing is below the task; a
  composite over two leaves calls it three times, because each child's
  \<^verbatim>\<open>reset()\<close> calls the composite's \<^verbatim>\<open>update\<close>, which finds the composite not
  done and notifies its listeners, and the final pass of \<^verbatim>\<open>reset()\<close> notifies them
  once more.
\<close>

theorem reset_zeroes_descendants:
  assumes "wf_state s" and "a < next_addr s" and "2 * next_addr s + a + 1 < n"
  shows "\<exists>s' L. reset n a s = Inr s' \<and>
           (\<forall>b. descendant (heap s) a b \<longrightarrow> is_zero (heap s' b)) \<and>
           (\<forall>b. \<not> descendant (heap s) a b \<longrightarrow> heap s' b = heap s b) \<and>
           calls s' = calls s @ L \<and>
           (\<forall>k. count_list (map fst (update_listeners (heap s a))) k \<le> count_list L (a, k)) \<and>
           (tree_state s \<and> (\<forall>b. descendant (heap s) a b \<and> b \<noteq> a \<longrightarrow> has_work (heap s b)) \<longrightarrow>
              (\<forall>k. count_list L (a, k) =
                 subtree_size (Suc a) (heap s) a *
                   count_list (map fst (update_listeners (heap s a))) k))"
proof -
  obtain L0 L1 where
    r: "reset n a s = Inr (s\<lparr>heap := zeroed (heap s) a, calls := calls s @ L0 @ L1\<rparr>)"
    and c: "\<forall>k. count_list L1 (a, k) = count_list (map fst (update_listeners (heap s a))) k"
    using reset_result [OF assms] by blast
  let ?L = "L0 @ L1"
  let ?s' = "s\<lparr>heap := zeroed (heap s) a, calls := calls s @ ?L\<rparr>"
  have 0: "reset n a s = Inr ?s'" using r by simp
  have 1: "\<forall>b. descendant (heap s) a b \<longrightarrow> is_zero (heap ?s' b)"
    by (simp add: zeroed_def)
  have 2: "\<forall>b. \<not> descendant (heap s) a b \<longrightarrow> heap ?s' b = heap s b"
    by (simp add: zeroed_def)
  have 3: "calls ?s' = calls s @ ?L" by simp
  have 4: "\<forall>k. count_list (map fst (update_listeners (heap s a))) k \<le> count_list ?L (a, k)"
    using c by simp
  have 5: "tree_state s \<and> (\<forall>b. descendant (heap s) a b \<and> b \<noteq> a \<longrightarrow> has_work (heap s b)) \<longrightarrow>
              (\<forall>k. count_list ?L (a, k) =
                 subtree_size (Suc a) (heap s) a *
                   count_list (map fst (update_listeners (heap s a))) k)"
  proof (intro impI allI)
    fix k
    assume t: "tree_state s \<and> (\<forall>b. descendant (heap s) a b \<and> b \<noteq> a \<longrightarrow> has_work (heap s b))"
    obtain L where
      r': "reset n a s = Inr (s\<lparr>heap := zeroed (heap s) a, calls := calls s @ L\<rparr>)"
      and c': "\<forall>b k. b < next_addr s \<and> descendant (heap s) b a \<and> (b = a \<or> has_work (heap s a)) \<longrightarrow>
          count_list L (b, k) =
            subtree_size (Suc a) (heap s) a * count_list (map fst (update_listeners (heap s b))) k"
      using reset_counts [OF conjunct1 [OF t] assms(2,3) conjunct2 [OF t]] by blast
    have "calls (s\<lparr>heap := zeroed (heap s) a, calls := calls s @ L\<rparr>) = calls ?s'"
      using r r' by simp
    then have "L = ?L" by simp
    then show "count_list ?L (a, k) =
                 subtree_size (Suc a) (heap s) a *
                   count_list (map fst (update_listeners (heap s a))) k"
      using c' assms(2) descendant.self [of "heap s" a] by simp
  qed
  show ?thesis
    by (rule exI [of _ ?s'], rule exI [of _ ?L]) (intro conjI 0 1 2 3 4 5)
qed

theorem reset_zeroes_descendants_witness:
  "wf_state driven_example \<and> 4 < next_addr driven_example \<and>
   2 * next_addr driven_example + 4 + 1 < (16 :: nat) \<and>
   tree_state driven_example \<and>
   has_work (heap driven_example 0) \<and> has_work (heap driven_example 1) \<and>
   has_work (heap driven_example 2) \<and> has_work (heap driven_example 3) \<and>
   body (heap driven_example 4) = MultiTask [2, 3] \<and>
   body (heap driven_example 2) = MultiTask [0, 1] \<and>
   body (heap driven_example 0) = SimpleTask True \<and>
   body (heap driven_example 1) = CounterTask 1 2 \<and>
   body (heap driven_example 3) = SimpleTask True \<and>
   update_listeners (heap driven_example 4) = [(1, Callback 0)] \<and>
   \<not> is_zero (heap driven_example 0) \<and> \<not> is_zero (heap driven_example 1) \<and>
   \<not> is_zero (heap driven_example 3) \<and>
   subtree_size 5 (heap driven_example) 4 = 5 \<and>
   (\<exists>s' L. reset 16 4 driven_example = Inr s' \<and>
      is_zero (heap s' 0) \<and> is_zero (heap s' 1) \<and> is_zero (heap s' 3) \<and>
      calls s' = calls driven_example @ L \<and>
      count_list L (4, 1) = 5)"
proof -
  note t = driven_example_tasks driven_example_tasks(2) [unfolded One_nat_def]
  have tr: "tree_state driven_example" by (rule tree_driven_example)
  have w: "wf_state driven_example" by (rule tree_state_wf [OF tr])
  have a: "4 < next_addr driven_example" by (simp add: t)
  have f: "2 * next_addr driven_example + 4 + 1 < (16 :: nat)" by (simp add: t)
  have hw: "has_work (heap driven_example 0)" "has_work (heap driven_example 1)"
    "has_work (heap driven_example 2)" "has_work (heap driven_example 3)"
    by (simp_all add: has_work_def t)
  have b: "body (heap driven_example 4) = MultiTask [2, 3]"
    "body (heap driven_example 2) = MultiTask [0, 1]"
    "body (heap driven_example 0) = SimpleTask True"
    "body (heap driven_example 1) = CounterTask 1 2"
    "body (heap driven_example 3) = SimpleTask True"
    "update_listeners (heap driven_example 4) = [(1, Callback 0)]"
    by (simp_all add: t)
  have st: "sub_tasks (heap driven_example 4) = [2, 3]"
    "sub_tasks (heap driven_example 2) = [0, 1]"
    "sub_tasks (heap driven_example 0) = []"
    "sub_tasks (heap driven_example 1) = []"
    "sub_tasks (heap driven_example 3) = []"
    by (simp_all add: sub_tasks_def t)
  have lt: "0 < next_addr driven_example" "1 < next_addr driven_example"
    "2 < next_addr driven_example" "3 < next_addr driven_example"
    by (simp_all add: t)
  have sz4: "subtree_size (Suc 4) (heap driven_example) 4 = 5"
    using subtree_size_unfold [OF w a] subtree_size_unfold [OF w lt(1)]
      subtree_size_unfold [OF w lt(2)] subtree_size_unfold [OF w lt(3)]
      subtree_size_unfold [OF w lt(4)]
    by (simp del: subtree_size.simps add: st st(4) [unfolded One_nat_def])
  have sz: "subtree_size 5 (heap driven_example) 4 = 5"
    using sz4 by (simp del: subtree_size.simps add: eval_nat_numeral)
  have d: "descendant (heap driven_example) 4 0" "descendant (heap driven_example) 4 1"
    "descendant (heap driven_example) 4 3"
    by (simp_all add: descendant_unfold [of _ 4] descendant_unfold [of _ 2] st descendant.self)
  have below: "\<forall>b. descendant (heap driven_example) 4 b \<and> b \<noteq> 4 \<longrightarrow>
                 has_work (heap driven_example b)"
  proof (intro allI impI)
    fix b assume h: "descendant (heap driven_example) 4 b \<and> b \<noteq> 4"
    have "b \<le> 4" using descendant_below [OF conjunct1 [OF h] w a] .
    then have "b = 0 \<or> b = 1 \<or> b = 2 \<or> b = 3" using h by arith
    then show "has_work (heap driven_example b)" using hw by auto
  qed
  obtain s' L where r: "reset 16 4 driven_example = Inr s'"
    and z: "\<forall>b. descendant (heap driven_example) 4 b \<longrightarrow> is_zero (heap s' b)"
    and c: "calls s' = calls driven_example @ L"
    and n: "tree_state driven_example \<and>
            (\<forall>b. descendant (heap driven_example) 4 b \<and> b \<noteq> 4 \<longrightarrow>
               has_work (heap driven_example b)) \<longrightarrow>
            (\<forall>k. count_list L (4, k) =
               subtree_size (Suc 4) (heap driven_example) 4 *
                 count_list (map fst (update_listeners (heap driven_example 4))) k)"
    using reset_zeroes_descendants [OF w a f] by blast
  have cnt: "count_list L (4, 1) = 5"
    using n tr below sz4 b(6) by (simp del: subtree_size.simps)
  have nz: "\<not> is_zero (heap driven_example 0)" "\<not> is_zero (heap driven_example 1)"
    "\<not> is_zero (heap driven_example 3)"
    by (simp_all add: is_zero_def t)
  have z': "is_zero (heap s' 0)" "is_zero (heap s' 1)" "is_zero (heap s' 3)"
    using z d by simp_all
  have e: "\<exists>s' L. reset 16 4 driven_example = Inr s' \<and>
      is_zero (heap s' 0) \<and> is_zero (heap s' 1) \<and> is_zero (heap s' 3) \<and>
      calls s' = calls driven_example @ L \<and>
      count_list L (4, 1) = 5"
    by (rule exI [of _ s'], rule exI [of _ L]) (intro conjI r z' c cnt)
  show ?thesis by (intro conjI w a f tr hw b nz sz e)
qed

text \<open>
  One \<^verbatim>\<open>reset()\<close> of a composite over two boolean leaves calls the composite's only
  listener three times: once after each child's reset and once at the end.
\<close>

theorem reset_notifies_per_child_counterexample:
  "update_listeners (heap two_leaves_example 2) = [(1, Callback 0)] \<and>
   body (heap two_leaves_example 2) = MultiTask [0, 1] \<and>
   reset 10 2 two_leaves_example =
     Inr (two_leaves_example\<lparr>calls := [(0, 1), (2, 1), (1, 1), (2, 1), (2, 1)]\<rparr>) \<and>
   count_list [(0, 1), (2, 1), (1, 1), (2, 1), (2, 1)] (2 :: addr, 1 :: int) = 3"
  using reset_two by (simp add: two_leaves_example_eq)

section \<open>update on a task that is done\<close>

lemma leaf_example_eq:
  "leaf_example =
     \<lparr>heap = (\<lambda>a. Task_init [] (SimpleTask False))
        (0 := \<lparr>name = ''leaf'', update_listeners = [(1, Callback 0)], body = SimpleTask False\<rparr>),
      next_addr = 1, calls = []\<rparr>"
  by (simp add: leaf_example_def init_defs)

lemma wf_leaf_example: "wf_state leaf_example"
  by (simp add: leaf_example_eq wf_state_def listener_ok_def sub_tasks_def)

lemma run_repeat_noop:
  "update n a s = Inr s \<Longrightarrow> run n (replicate k (DoUpdate a)) s = Inr s"
  by (induction k) simp_all

lemma is_done_SimpleTask: "body (h a) = SimpleTask d \<Longrightarrow> is_done (Suc n) h a = Inr d"
  by simp

text \<open>
  Claim C6. When \<^verbatim>\<open>is_done()\<close> is true, \<^verbatim>\<open>update()\<close> returns the state as it
  was: no task changes and no listener is called (the trace of calls is part of the
  state). For a boolean leaf that is not done, in a well-formed store: after one or more
  \<^verbatim>\<open>update()\<close> calls the leaf is done and every listener of the leaf has been called
  once for each time its key is registered (once, keys being unique), however many
  calls followed the first.
\<close>

theorem update_when_done_is_noop:
  "(is_done n (heap s) a = Inr True \<longrightarrow> update (Suc n) a s = Inr s) \<and>
   (wf_state s \<and> a < next_addr s \<and> 2 * next_addr s < n \<and> body (heap s a) = SimpleTask False \<longrightarrow>
      (\<exists>s'. run n (replicate (Suc k) (DoUpdate a)) s = Inr s' \<and>
            body (heap s' a) = SimpleTask True \<and>
            (\<forall>uid. count_list (calls s') (a, uid) =
               count_list (calls s) (a, uid) +
               count_list (map fst (update_listeners (heap s a))) uid)))"
proof (intro conjI impI)
  assume "is_done n (heap s) a = Inr True"
  then show "update (Suc n) a s = Inr s" by simp
next
  assume h: "wf_state s \<and> a < next_addr s \<and> 2 * next_addr s < n \<and> body (heap s a) = SimpleTask False"
  then have wf: "wf_state s" and a: "a < next_addr s" and n: "2 * next_addr s < n"
    and b: "body (heap s a) = SimpleTask False" by simp_all
  have fuel: "2 * next_addr s - a < n" using n by simp
  obtain m where nm: "n = Suc m" using n by (cases n) auto
  obtain d L where d: "is_done (Suc a) (heap s) a = Inr d"
    and u: "update n a s =
       Inr (if d then s
            else s\<lparr>heap := (heap s)(a := update_impl (heap s a)), calls := calls s @ L\<rparr>)"
    and c: "\<not> d \<longrightarrow>
        (\<forall>k. count_list L (a, k) = count_list (map fst (update_listeners (heap s a))) k)"
    using update_result [OF wf a fuel] by blast
  have nd: "\<not> d" using d b by simp
  let ?s' = "s\<lparr>heap := (heap s)(a := update_impl (heap s a)), calls := calls s @ L\<rparr>"
  have u1: "update n a s = Inr ?s'" using u nd by simp
  have b': "body (heap ?s' a) = SimpleTask True" using b by (simp add: update_impl_def)
  have "is_done m (heap ?s') a = Inr True"
  proof (cases m)
    case 0
    then show ?thesis using n nm a by simp
  next
    case (Suc m')
    then show ?thesis using b' by simp
  qed
  then have "update n a ?s' = Inr ?s'" unfolding nm by simp
  then have "run n (replicate k (DoUpdate a)) ?s' = Inr ?s'" by (rule run_repeat_noop)
  then have r: "run n (replicate (Suc k) (DoUpdate a)) s = Inr ?s'" using u1 by simp
  have cnt: "\<forall>uid. count_list (calls ?s') (a, uid) =
               count_list (calls s) (a, uid) +
               count_list (map fst (update_listeners (heap s a))) uid"
    using c nd by simp
  show "\<exists>s'. run n (replicate (Suc k) (DoUpdate a)) s = Inr s' \<and>
            body (heap s' a) = SimpleTask True \<and>
            (\<forall>uid. count_list (calls s') (a, uid) =
               count_list (calls s) (a, uid) +
               count_list (map fst (update_listeners (heap s a))) uid)"
    by (rule exI [of _ ?s']) (use r b' cnt in blast)
qed

theorem update_when_done_is_noop_witness:
  "wf_state leaf_example \<and> 0 < next_addr leaf_example \<and>
   body (heap leaf_example 0) = SimpleTask False \<and>
   update_listeners (heap leaf_example 0) = [(1, Callback 0)] \<and>
   (\<exists>s'. run 3 (replicate 3 (DoUpdate 0)) leaf_example = Inr s' \<and>
         body (heap s' 0) = SimpleTask True \<and>
         count_list (calls s') (0, 1) = 1 \<and>
         update 3 0 s' = Inr s')"
proof -
  have w: "wf_state leaf_example" by (rule wf_leaf_example)
  have a: "0 < next_addr leaf_example" by (simp add: leaf_example_eq)
  have f: "2 * next_addr leaf_example < 3" by (simp add: leaf_example_eq)
  have b: "body (heap leaf_example 0) = SimpleTask False" by (simp add: leaf_example_eq)
  have l: "update_listeners (heap leaf_example 0) = [(1, Callback 0)]"
    by (simp add: leaf_example_eq)
  have c: "calls leaf_example = []" by (simp add: leaf_example_eq)
  obtain s' where r: "run 3 (replicate (Suc 2) (DoUpdate 0)) leaf_example = Inr s'"
    and b': "body (heap s' 0) = SimpleTask True"
    and cnt: "\<forall>uid. count_list (calls s') (0, uid) =
               count_list (calls leaf_example) (0, uid) +
               count_list (map fst (update_listeners (heap leaf_example 0))) uid"
    using update_when_done_is_noop [of 3 leaf_example 0 2] w a f b by blast
  have r3: "run 3 (replicate 3 (DoUpdate 0)) leaf_example = Inr s'"
    using r by (simp add: numeral_3_eq_3)
  have one: "count_list (calls s') (0, 1) = 1" using cnt l c by simp
  have d: "is_done 2 (heap s') 0 = Inr True" using b' by (simp add: numeral_2_eq_2)
  have "update (Suc 2) 0 s' = Inr s'" using update_when_done_is_noop [of 2 s' 0] d by blast
  then have u: "update 3 0 s' = Inr s'" by (simp add: numeral_3_eq_3)
  show ?thesis using w a b l r3 b' one u by blast
qed

section \<open>Removing a listener\<close>

text \<open>
  Claim C8. \<^verbatim>\<open>remove(uid)\<close> with an id that is not in the registry raises
  \<^verbatim>\<open>KeyError\<close> to the caller and leaves the state, the registry included, as it was.
\<close>

theorem remove_unknown_raises:
  "uid \<notin> fst ` set (update_listeners (heap s a)) \<Longrightarrow> remove a uid s = (Inl KeyError, s)"
  by (simp add: remove_def)

theorem remove_unknown_raises_witness:
  "(2 :: int) \<notin> fst ` set (update_listeners (heap registry_example 0)) \<and>
   remove 0 2 registry_example = (Inl KeyError, registry_example)"
proof -
  have n: "(2 :: int) \<notin> fst ` set (update_listeners (heap registry_example 0))"
    by (simp add: registry_example_listeners)
  show ?thesis using n remove_unknown_raises [OF n] by simp
qed

section \<open>Constructing a counted leaf\<close>

text \<open>
  Claim C7, as the code has it. \<^verbatim>\<open>CounterTask.__init__\<close> checks nothing: for every
  target, positive or not, it creates a leaf with counter 0 and that target. A leaf with
  a target of 0 or less is done from the start, and \<^verbatim>\<open>completeness()\<close> of a leaf
  with target 0 raises \<^verbatim>\<open>ZeroDivisionError\<close>.
\<close>

theorem CounterTask_init_accepts_any_target:
  "\<exists>s'. CounterTask_init l nm s = Inr (next_addr s, s') \<and>
        next_addr s' = Suc (next_addr s) \<and>
        body (heap s' (next_addr s)) = CounterTask 0 l \<and>
        (l \<le> 0 \<longrightarrow> is_done (Suc n) (heap s') (next_addr s) = Inr True) \<and>
        (l = 0 \<longrightarrow> completeness (Suc n) (heap s') (next_addr s) = Inl ZeroDivisionError)"
  by (simp add: CounterTask_init_def allocate_def Task_init_def)

theorem CounterTask_init_accepts_any_target_witness:
  "\<exists>s'. CounterTask_init 0 ''c'' empty_state = Inr (0, s') \<and>
        body (heap s' 0) = CounterTask 0 0 \<and>
        is_done 1 (heap s') 0 = Inr True \<and>
        completeness 1 (heap s') 0 = Inl ZeroDivisionError"
proof -
  have n: "next_addr empty_state = 0" by (simp add: empty_state_def)
  obtain s' where i: "CounterTask_init 0 ''c'' empty_state = Inr (0, s')"
    and b: "body (heap s' 0) = CounterTask 0 0"
    and d: "(0 :: rat) \<le> 0 \<longrightarrow> is_done (Suc 0) (heap s') 0 = Inr True"
    and c: "(0 :: rat) = 0 \<longrightarrow> completeness (Suc 0) (heap s') 0 = Inl ZeroDivisionError"
    using CounterTask_init_accepts_any_target [of 0 "''c''" empty_state 0] unfolding n by blast
  have d': "is_done 1 (heap s') 0 = Inr True" using d by simp
  have c': "completeness 1 (heap s') 0 = Inl ZeroDivisionError" using c by simp
  show ?thesis by (rule exI [of _ s']) (use i b d' c' in blast)
qed

text \<open>A counted leaf with target 0 is constructed without an error.\<close>

theorem CounterTask_init_zero_counterexample:
  "CounterTask_init 0 ''c'' empty_state =
     Inr (0, empty_state\<lparr>heap := (heap empty_state)
               (0 := \<lparr>name = ''c'', update_listeners = [], body = CounterTask 0 0\<rparr>),
             next_addr := 1\<rparr>)"
  by (simp add: CounterTask_init_def allocate_def Task_init_def empty_state_def)

section \<open>Sequences of calls on well-formed stores\<close>

lemma same_shape_update_impl_calls [simp]:
  "same_shape s (s\<lparr>heap := (heap s)(a := update_impl (heap s a)), calls := c\<rparr>)"
  by (simp add: same_shape_def)

lemma step_result:
  assumes wf: "wf_state s" and a: "target c < next_addr s" and n: "3 * next_addr s + 1 < n"
  shows "\<exists>s'. step n c s = Inr s' \<and> same_shape s s' \<and>
           (heap s' = heap s \<or>
            (c = DoUpdate (target c) \<and> is_done (Suc (target c)) (heap s) (target c) = Inr False \<and>
               heap s' = (heap s)(target c := update_impl (heap s (target c)))) \<or>
            (c = DoReset (target c) \<and> heap s' = zeroed (heap s) (target c)))"
proof (cases c)
  case (DoUpdate b)
  have b: "b < next_addr s" using a DoUpdate by simp
  have fuel: "2 * next_addr s - b < n" using n by simp
  obtain d L where d: "is_done (Suc b) (heap s) b = Inr d"
    and u: "update n b s =
       Inr (if d then s
            else s\<lparr>heap := (heap s)(b := update_impl (heap s b)), calls := calls s @ L\<rparr>)"
    using update_result [OF wf b fuel] by blast
  show ?thesis
  proof (cases d)
    case True
    show ?thesis by (rule exI [of _ s]) (use u True DoUpdate in simp)
  next
    case False
    show ?thesis
      by (rule exI [of _ "s\<lparr>heap := (heap s)(b := update_impl (heap s b)), calls := calls s @ L\<rparr>"])
        (use u d False DoUpdate in simp)
  qed
next
  case (DoReset b)
  have b: "b < next_addr s" using a DoReset by simp
  have fuel: "2 * next_addr s + b + 1 < n" using n b by simp
  obtain L0 L1 where
    r: "reset n b s = Inr (s\<lparr>heap := zeroed (heap s) b, calls := calls s @ L0 @ L1\<rparr>)"
    using reset_result [OF wf b fuel] by blast
  show ?thesis
    by (rule exI [of _ "s\<lparr>heap := zeroed (heap s) b, calls := calls s @ L0 @ L1\<rparr>"])
      (use r DoReset in simp)
qed

lemma run_invariant:
  assumes pres_u: "\<And>s1 a. wf_state s1 \<Longrightarrow> next_addr s1 = N \<Longrightarrow> a < N \<Longrightarrow> I (heap s1) \<Longrightarrow>
            DoUpdate a \<in> set ops \<Longrightarrow> is_done (Suc a) (heap s1) a = Inr False \<Longrightarrow>
            I ((heap s1)(a := update_impl (heap s1 a)))"
    and pres_r: "\<And>s1 a. wf_state s1 \<Longrightarrow> next_addr s1 = N \<Longrightarrow> a < N \<Longrightarrow> I (heap s1) \<Longrightarrow>
            DoReset a \<in> set ops \<Longrightarrow> I (zeroed (heap s1) a)"
    and wf: "wf_state s" and N: "next_addr s = N"
    and ops: "\<forall>c\<in>set ops. target c < N" and n: "3 * N + 1 < n"
    and I: "I (heap s)"
  shows "\<exists>s'. run n ops s = Inr s' \<and> same_shape s s' \<and> wf_state s' \<and> I (heap s')"
  using assms
proof (induction ops arbitrary: s)
  case Nil
  show ?case by (rule exI [of _ s]) (use Nil.prems in simp)
next
  case (Cons c ops)
  have t: "target c < next_addr s" using Cons.prems(4,5) by simp
  have f: "3 * next_addr s + 1 < n" using Cons.prems(4,6) by simp
  obtain s1 where st: "step n c s = Inr s1" and sh: "same_shape s s1"
    and h: "heap s1 = heap s \<or>
            (c = DoUpdate (target c) \<and> is_done (Suc (target c)) (heap s) (target c) = Inr False \<and>
               heap s1 = (heap s)(target c := update_impl (heap s (target c)))) \<or>
            (c = DoReset (target c) \<and> heap s1 = zeroed (heap s) (target c))"
    using step_result [OF Cons.prems(3) t f] by blast
  have wf1: "wf_state s1" using wf_state_shape [OF sh] Cons.prems(3) by simp
  have N1: "next_addr s1 = N" using same_shape_next [OF sh] Cons.prems(4) by simp
  have tN: "target c < N" using Cons.prems(5) by simp
  have I1: "I (heap s1)"
  proof -
    consider "heap s1 = heap s"
      | "c = DoUpdate (target c)" "is_done (Suc (target c)) (heap s) (target c) = Inr False"
        "heap s1 = (heap s)(target c := update_impl (heap s (target c)))"
      | "c = DoReset (target c)" "heap s1 = zeroed (heap s) (target c)"
      using h by blast
    then show ?thesis
    proof cases
      case 1
      then show ?thesis using Cons.prems(7) by simp
    next
      case 2
      have m: "DoUpdate (target c) \<in> set (c # ops)" using 2(1) by simp
      show ?thesis unfolding 2(3)
        by (rule Cons.prems(1) [OF Cons.prems(3,4) tN Cons.prems(7) m 2(2)])
    next
      case 3
      have m: "DoReset (target c) \<in> set (c # ops)" using 3(1) by simp
      show ?thesis unfolding 3(2)
        by (rule Cons.prems(2) [OF Cons.prems(3,4) tN Cons.prems(7) m])
    qed
  qed
  have pu: "I ((heap s2)(a := update_impl (heap s2 a)))"
    if "wf_state s2" "next_addr s2 = N" "a < N" "I (heap s2)" "DoUpdate a \<in> set ops"
      "is_done (Suc a) (heap s2) a = Inr False" for s2 a
    by (rule Cons.prems(1) [OF that(1-4) _ that(6)]) (use that(5) in simp)
  have pr: "I (zeroed (heap s2) a)"
    if "wf_state s2" "next_addr s2 = N" "a < N" "I (heap s2)" "DoReset a \<in> set ops" for s2 a
    by (rule Cons.prems(2) [OF that(1-4)]) (use that(5) in simp)
  have o: "\<forall>c\<in>set ops. target c < N" using Cons.prems(5) by simp
  obtain s' where r: "run n ops s1 = Inr s'" and sh': "same_shape s1 s'"
    and wf': "wf_state s'" and I': "I (heap s')"
    using Cons.IH [OF pu pr wf1 N1 o Cons.prems(6) I1] by blast
  have "run n (c # ops) s = Inr s'" using st r by simp
  moreover have "same_shape s s'" by (rule same_shape_trans [OF sh sh'])
  ultimately show ?case using wf' I' by (intro exI [of _ s']) simp
qed

section \<open>The counter of a counted leaf\<close>

lemma sint_succ_le: "sint (p + 1 :: 32 word) \<le> sint p + 1"
proof -
  have "sint (p + 1) = signed_take_bit 31 (sint p + 1)"
    by (simp add: sint_word_ariths)
  moreover have "- (2 ^ 31) \<le> sint p + 1" using sint_ge [of p] by simp
  ultimately show ?thesis by (simp add: signed_take_bit_int_less_eq_self_iff)
qed

lemma sint_succ: "sint p < 2 ^ 31 - 1 \<Longrightarrow> sint (p + 1 :: 32 word) = sint p + 1"
proof -
  assume a: "sint p < 2 ^ 31 - 1"
  have "sint (p + 1) = signed_take_bit 31 (sint p + 1)"
    by (simp add: sint_word_ariths)
  moreover have "- (2 ^ 31) \<le> sint p + 1" using sint_ge [of p] by simp
  moreover have "sint p + 1 < 2 ^ 31" using a by simp
  ultimately show ?thesis by (simp add: signed_take_bit_int_eq_self)
qed

lemma counter_within_update_impl:
  assumes "counter_within T (h b)" and "is_done (Suc b) h b = Inr False"
  shows "counter_within T (update_impl (h b))"
proof -
  obtain p where b: "body (h b) = CounterTask p (of_int T)" and le: "sint p \<le> T"
    using assms(1) by (auto simp: counter_within_def split: body.splits)
  have "\<not> (of_int T :: rat) \<le> of_int (sint p)" using assms(2) b by simp
  then have "sint p < T" by (simp only: of_int_le_iff not_le)
  then have "sint (p + 1) \<le> T" using sint_succ_le [of p] by simp
  then show ?thesis using b by (simp add: counter_within_def update_impl_def)
qed

lemma counter_within_reset_leaf:
  "0 < T \<Longrightarrow> counter_within T t \<Longrightarrow> counter_within T (reset_leaf t)"
  by (auto simp: counter_within_def reset_leaf_def split: body.splits)

lemma counter_within_completeness:
  assumes "0 < T" and "counter_within T (h b)"
  shows "\<exists>v. completeness (Suc k) h b = Inr v \<and> v \<le> 1"
proof -
  obtain p where b: "body (h b) = CounterTask p (of_int T)" and le: "sint p \<le> T"
    using assms(2) by (auto simp: counter_within_def split: body.splits)
  have "(of_int (sint p) :: rat) \<le> of_int T" using le by (simp only: of_int_le_iff)
  then have "(of_int (sint p) :: rat) / of_int T \<le> 1" using assms(1) by simp
  then show ?thesis using b assms(1) by simp
qed

lemma two_counters_example_eq:
  "two_counters_example =
     \<lparr>heap = (\<lambda>a. Task_init [] (SimpleTask False))
        (0 := \<lparr>name = ''mul'', update_listeners = [(1, Update 2)], body = CounterTask 0 2\<rparr>,
         1 := \<lparr>name = ''sum'', update_listeners = [(1, Update 2)], body = CounterTask 0 4\<rparr>,
         2 := \<lparr>name = ''tasks'', update_listeners = [], body = MultiTask [0, 1]\<rparr>),
      next_addr = 3, calls = []\<rparr>"
  by (simp add: two_counters_example_def init_defs numeral_2_eq_2)

lemma wf_two_counters_example: "wf_state two_counters_example"
  by (simp add: two_counters_example_eq wf_state_def listener_ok_def sub_tasks_def is_multi_def
      lessThan_Suc numeral_3_eq_3 Task_init_def)

text \<open>
  Claim C10. Take a counted leaf with a positive integer target \<open>T\<close> whose counter does
  not exceed \<open>T\<close> (it is 0 after construction), in a well-formed store. Every sequence
  of \<^verbatim>\<open>update()\<close> and \<^verbatim>\<open>reset()\<close> calls, on any tasks of the store, returns, and
  afterwards the counter still does not exceed \<open>T\<close> and \<^verbatim>\<open>completeness()\<close> of the
  leaf is at most 1. Since every prefix of a sequence is a sequence, this holds after
  every call. \<^verbatim>\<open>update()\<close> increments only when \<^verbatim>\<open>is_done()\<close> is false, that is
  when the counter is below \<open>T\<close>.
\<close>

theorem counter_never_exceeds_target:
  assumes "wf_state s" and "\<forall>c\<in>set ops. target c < next_addr s"
    and "3 * next_addr s + 1 < n" and "0 < T" and "counter_within T (heap s b)"
  shows "\<exists>s'. run n ops s = Inr s' \<and> counter_within T (heap s' b) \<and>
           (\<exists>v. completeness (Suc k) (heap s') b = Inr v \<and> v \<le> 1)"
proof -
  let ?I = "\<lambda>h. counter_within T (h b)"
  have pu: "?I ((heap s1)(a := update_impl (heap s1 a)))"
    if "?I (heap s1)" "is_done (Suc a) (heap s1) a = Inr False" for s1 :: state and a
  proof (cases "a = b")
    case True
    then show ?thesis using counter_within_update_impl [of T "heap s1" b] that by simp
  next
    case False
    then show ?thesis using that(1) by simp
  qed
  have pr: "?I (zeroed (heap s1) a)" if "?I (heap s1)" for s1 :: state and a
    using that counter_within_reset_leaf [OF assms(4), of "heap s1 b"]
    by (simp add: zeroed_def)
  obtain s' where r: "run n ops s = Inr s'" and I': "counter_within T (heap s' b)"
    using run_invariant [where I = ?I and N = "next_addr s" and ops = ops and s = s and n = n,
        OF pu pr assms(1) refl assms(2,3,5)]
    by blast
  show ?thesis
    by (rule exI [of _ s']) (use r I' counter_within_completeness [of T "heap s'" b k] assms(4) in blast)
qed

theorem counter_never_exceeds_target_witness:
  "wf_state two_counters_example \<and> 3 * next_addr two_counters_example + 1 < (11 :: nat) \<and>
   counter_within 2 (heap two_counters_example 0) \<and>
   (\<exists>s'. run 11 [DoUpdate 0, DoUpdate 0, DoUpdate 0, DoReset 2, DoUpdate 0] two_counters_example
           = Inr s' \<and>
         counter_within 2 (heap s' 0) \<and>
         (\<exists>v. completeness (Suc 0) (heap s') 0 = Inr v \<and> v \<le> 1))"
proof -
  have w: "wf_state two_counters_example" by (rule wf_two_counters_example)
  have f: "3 * next_addr two_counters_example + 1 < (11 :: nat)"
    by (simp add: two_counters_example_eq)
  have o: "\<forall>c\<in>set [DoUpdate 0, DoUpdate 0, DoUpdate 0, DoReset 2, DoUpdate 0].
             target c < next_addr two_counters_example"
    by (simp add: two_counters_example_eq)
  have T: "(0 :: int) < 2" by simp
  have c: "counter_within 2 (heap two_counters_example 0)"
    by (simp add: two_counters_example_eq counter_within_def)
  show ?thesis
    using w f c counter_never_exceeds_target [OF w o f T c, of 0] by blast
qed

section \<open>Driving a counted leaf to its target\<close>

lemma sint_of_nat_small: "j < 2 ^ 31 \<Longrightarrow> sint (of_nat j :: 32 word) = int j"
proof (induction j)
  case 0
  then show ?case by simp
next
  case (Suc j)
  have IH: "sint (of_nat j :: 32 word) = int j" using Suc by simp
  have "int j < 2 ^ 31 - 1" using Suc.prems by simp
  then have "sint (of_nat j :: 32 word) < 2 ^ 31 - 1" using IH by simp
  then have "sint (of_nat j + 1 :: 32 word) = sint (of_nat j :: 32 word) + 1"
    by (rule sint_succ)
  then show ?case using IH by (simp add: add.commute)
qed

lemma sint_of_nat_wrap: "sint (of_nat (2 ^ 31) :: 32 word) = - (2 ^ 31)"
proof -
  have m: "sint (of_nat (2 ^ 31 - 1) :: 32 word) = 2 ^ 31 - 1"
    using sint_of_nat_small [of "2 ^ 31 - 1"] by simp
  have "sint (of_nat (2 ^ 31 - 1) + 1 :: 32 word) = signed_take_bit 31 (sint (of_nat (2 ^ 31 - 1) :: 32 word) + 1)"
    by (simp add: sint_word_ariths)
  also have "\<dots> = signed_take_bit 31 (2 ^ 31 :: int)" using m by simp
  also have "\<dots> = - (2 ^ 31)" by (simp add: signed_take_bit_eq_take_bit_minus)
  finally show ?thesis by simp
qed

lemma count_up:
  assumes "wf_state s" and "a < next_addr s" and "2 * next_addr s < n"
    and "body (heap s a) = CounterTask p l"
    and "\<forall>j<k. \<not> l \<le> of_int (sint (p + of_nat j))"
  shows "\<exists>s'. run n (replicate k (DoUpdate a)) s = Inr s' \<and>
           body (heap s' a) = CounterTask (p + of_nat k) l"
  using assms
proof (induction k arbitrary: s p)
  case 0
  show ?case by (rule exI [of _ s]) (use 0 in simp)
next
  case (Suc k)
  have fuel: "2 * next_addr s - a < n" using Suc.prems(3) by simp
  obtain d L where d: "is_done (Suc a) (heap s) a = Inr d"
    and u: "update n a s =
       Inr (if d then s
            else s\<lparr>heap := (heap s)(a := update_impl (heap s a)), calls := calls s @ L\<rparr>)"
    using update_result [OF Suc.prems(1,2) fuel] by blast
  have "\<not> l \<le> of_int (sint (p + of_nat 0))" using Suc.prems(5) by blast
  then have nd: "\<not> d" using d Suc.prems(4) by (simp del: of_int_sint)
  let ?s1 = "s\<lparr>heap := (heap s)(a := update_impl (heap s a)), calls := calls s @ L\<rparr>"
  have u1: "update n a s = Inr ?s1" using u nd by simp
  have wf1: "wf_state ?s1"
    using wf_state_shape [OF same_shape_update_impl_calls [where s = s and a = a and c = "calls s @ L"]]
      Suc.prems(1) by simp
  have a1: "a < next_addr ?s1" using Suc.prems(2) by simp
  have n1: "2 * next_addr ?s1 < n" using Suc.prems(3) by simp
  have b1: "body (heap ?s1 a) = CounterTask (p + 1) l"
    using Suc.prems(4) by (simp add: update_impl_def)
  have later: "\<forall>j<k. \<not> l \<le> of_int (sint (p + 1 + of_nat j))"
  proof (intro allI impI)
    fix j assume "j < k"
    then have "Suc j < Suc k" by simp
    then have "\<not> l \<le> of_int (sint (p + of_nat (Suc j)))"
      using Suc.prems(5) [rule_format, of "Suc j"] by blast
    then show "\<not> l \<le> of_int (sint (p + 1 + of_nat j))" by (simp add: add.assoc)
  qed
  obtain s' where r: "run n (replicate k (DoUpdate a)) ?s1 = Inr s'"
    and b': "body (heap s' a) = CounterTask (p + 1 + of_nat k) l"
    using Suc.IH [OF wf1 a1 n1 b1 later] by blast
  have "run n (replicate (Suc k) (DoUpdate a)) s = Inr s'" using u1 r by simp
  moreover have "body (heap s' a) = CounterTask (p + of_nat (Suc k)) l"
    using b' by (simp add: add.assoc)
  ultimately show ?case by (intro exI [of _ s']) simp
qed

lemma big_counter_example_eq:
  "big_counter_example =
     \<lparr>heap = (\<lambda>a. Task_init [] (SimpleTask False))
        (0 := \<lparr>name = ''big'', update_listeners = [], body = CounterTask 0 (2 ^ 31)\<rparr>),
      next_addr = 1, calls = []\<rparr>"
  by (simp add: big_counter_example_def init_defs)

lemma wf_big_counter_example: "wf_state big_counter_example"
  by (simp add: big_counter_example_eq wf_state_def sub_tasks_def)

text \<open>
  Claim C5, as the code has it. Take a counted leaf with counter 0 and a positive integer
  target \<open>T\<close> that a C \<^verbatim>\<open>int\<close> can hold (\<open>T < 2^31\<close>), in a well-formed store.
  \<open>T\<close> calls of \<^verbatim>\<open>update()\<close> one after the other return, and afterwards
  \<^verbatim>\<open>is_done()\<close> is true and \<^verbatim>\<open>completeness()\<close> is exactly 1.
\<close>

theorem counter_done_after_target_updates:
  assumes "wf_state s" and "a < next_addr s" and "2 * next_addr s < n"
    and "body (heap s a) = CounterTask 0 (of_int T)" and "0 < T" and "T < 2 ^ 31"
  shows "\<exists>s'. run n (replicate (nat T) (DoUpdate a)) s = Inr s' \<and>
           is_done (Suc m) (heap s') a = Inr True \<and>
           completeness (Suc m) (heap s') a = Inr 1"
proof -
  have small: "nat T < 2 ^ 31" using assms(5,6) by (simp add: nat_less_iff)
  have below: "\<forall>j<nat T. \<not> (of_int T :: rat) \<le> of_int (sint (0 + of_nat j :: 32 word))"
  proof (intro allI impI)
    fix j assume j: "j < nat T"
    then have "j < 2 ^ 31" using small by simp
    then have "sint (of_nat j :: 32 word) = int j" by (rule sint_of_nat_small)
    moreover have "int j < T" using j by simp
    ultimately have "sint (0 + of_nat j :: 32 word) < T" by simp
    then show "\<not> (of_int T :: rat) \<le> of_int (sint (0 + of_nat j :: 32 word))"
      by (simp only: of_int_le_iff not_le)
  qed
  obtain s' where r: "run n (replicate (nat T) (DoUpdate a)) s = Inr s'"
    and b: "body (heap s' a) = CounterTask (0 + of_nat (nat T)) (of_int T)"
    using count_up [OF assms(1,2,3,4) below] by blast
  have v: "sint (0 + of_nat (nat T) :: 32 word) = T"
    using sint_of_nat_small [OF small] assms(5) by simp
  have d: "is_done (Suc m) (heap s') a = Inr True"
    using b v by (simp del: of_int_sint)
  have "(of_int T :: rat) / of_int T = 1" using assms(5) by simp
  then have c: "completeness (Suc m) (heap s') a = Inr 1"
    using b v assms(5) by (simp del: of_int_sint)
  show ?thesis by (rule exI [of _ s']) (use r d c in blast)
qed

theorem counter_done_after_target_updates_witness:
  "wf_state two_counters_example \<and> 0 < next_addr two_counters_example \<and>
   body (heap two_counters_example 0) = CounterTask 0 (of_int 2) \<and>
   (\<exists>s'. run 7 [DoUpdate 0, DoUpdate 0] two_counters_example = Inr s' \<and>
         is_done 1 (heap s') 0 = Inr True \<and>
         completeness 1 (heap s') 0 = Inr 1)"
proof -
  have w: "wf_state two_counters_example" by (rule wf_two_counters_example)
  have a: "0 < next_addr two_counters_example" by (simp add: two_counters_example_eq)
  have f: "2 * next_addr two_counters_example < 7" by (simp add: two_counters_example_eq)
  have b: "body (heap two_counters_example 0) = CounterTask 0 (of_int 2)"
    by (simp add: two_counters_example_eq)
  have T: "(0 :: int) < 2" "(2 :: int) < 2 ^ 31" by simp_all
  have rep: "replicate (nat 2) (DoUpdate 0) = [DoUpdate 0, DoUpdate 0]"
    by (simp add: numeral_2_eq_2)
  show ?thesis
    using w a b counter_done_after_target_updates [OF w a f b T, of 0] unfolding rep
    by simp
qed

text \<open>
  With the target \<open>2^31\<close> the counter wraps to \<open>-2^31\<close> at the last of the \<open>2^31\<close>
  updates, and the leaf is not done.
\<close>

theorem counter_wraps_counterexample:
  "body (heap big_counter_example 0) = CounterTask 0 (of_int (2 ^ 31)) \<and>
   (case run 3 (replicate (nat (2 ^ 31)) (DoUpdate 0)) big_counter_example of
      Inl e \<Rightarrow> Inl e
    | Inr s' \<Rightarrow> is_done 1 (heap s') 0) = Inr False"
proof -
  have b: "body (heap big_counter_example 0) = CounterTask 0 (2 ^ 31)"
    by (simp add: big_counter_example_eq)
  have a: "0 < next_addr big_counter_example" by (simp add: big_counter_example_eq)
  have f: "2 * next_addr big_counter_example < 3" by (simp add: big_counter_example_eq)
  have never: "\<forall>j<2 ^ 31. \<not> (2 ^ 31 :: rat) \<le> of_int (sint (0 + of_nat j :: 32 word))"
  proof (intro allI impI)
    fix j :: nat
    have "sint (0 + of_nat j :: 32 word) < 2 ^ 31" using sint_lt [of "0 + of_nat j :: 32 word"] by simp
    then have "(of_int (sint (0 + of_nat j :: 32 word)) :: rat) < of_int (2 ^ 31)"
      by (simp only: of_int_less_iff)
    then show "\<not> (2 ^ 31 :: rat) \<le> of_int (sint (0 + of_nat j :: 32 word))"
      by (simp del: of_int_sint)
  qed
  obtain s' where r: "run 3 (replicate (2 ^ 31) (DoUpdate 0)) big_counter_example = Inr s'"
    and b': "body (heap s' 0) = CounterTask (0 + of_nat (2 ^ 31)) (2 ^ 31)"
    using count_up [OF wf_big_counter_example a f b never] by blast
  have "is_done 1 (heap s') 0 = Inr False"
    using b' sint_of_nat_wrap by (simp del: of_int_sint)
  then show ?thesis using r b by simp
qed

section \<open>Aggregation in a composite\<close>









end
